theory Spec2Isabelle
  imports Main "HOL-Library.Word" "HOL-Library.Sublist"
begin

unbundle bit_operations_syntax

section \<open>Text and bytes\<close>

text \<open>
  A Python \<open>str\<close> is a \<open>string\<close>: a list of characters, each a code point below 256.
  \<open>str.encode("utf-8")\<close> writes a code point below 128 as one byte and any other
  code point of this range as two bytes.
\<close>

type_synonym byte = "8 word"

definition nl :: char where
  "nl = CHR 0x0A"

definition utf8_char :: "char \<Rightarrow> byte list" where
  "utf8_char c =
     (let n = (of_char c :: nat)
      in if n < 128 then [of_nat n]
         else [of_nat (192 + n div 64), of_nat (128 + n mod 64)])"

definition encode_utf8 :: "string \<Rightarrow> byte list" where
  "encode_utf8 s = concat (map utf8_char s)"

text \<open>\<open>sep.join(parts)\<close>\<close>

fun join :: "string \<Rightarrow> string list \<Rightarrow> string" where
  "join sep [] = []"
| "join sep [x] = x"
| "join sep (x # y # ys) = x @ sep @ join sep (y # ys)"

section \<open>SHA-256 (hashlib.sha256)\<close>

text \<open>
  The digest of FIPS 180-4 over a list of bytes: padding to a multiple of 64 bytes, the
  message schedule of 64 words per block and 64 rounds of the compression function.
\<close>

type_synonym w32 = "32 word"

type_synonym sha_state = "w32 \<times> w32 \<times> w32 \<times> w32 \<times> w32 \<times> w32 \<times> w32 \<times> w32"

definition sha_k :: "w32 list" where
  "sha_k =
    [0x428A2F98, 0x71374491, 0xB5C0FBCF, 0xE9B5DBA5, 0x3956C25B, 0x59F111F1,
     0x923F82A4, 0xAB1C5ED5, 0xD807AA98, 0x12835B01, 0x243185BE, 0x550C7DC3,
     0x72BE5D74, 0x80DEB1FE, 0x9BDC06A7, 0xC19BF174, 0xE49B69C1, 0xEFBE4786,
     0x0FC19DC6, 0x240CA1CC, 0x2DE92C6F, 0x4A7484AA, 0x5CB0A9DC, 0x76F988DA,
     0x983E5152, 0xA831C66D, 0xB00327C8, 0xBF597FC7, 0xC6E00BF3, 0xD5A79147,
     0x06CA6351, 0x14292967, 0x27B70A85, 0x2E1B2138, 0x4D2C6DFC, 0x53380D13,
     0x650A7354, 0x766A0ABB, 0x81C2C92E, 0x92722C85, 0xA2BFE8A1, 0xA81A664B,
     0xC24B8B70, 0xC76C51A3, 0xD192E819, 0xD6990624, 0xF40E3585, 0x106AA070,
     0x19A4C116, 0x1E376C08, 0x2748774C, 0x34B0BCB5, 0x391C0CB3, 0x4ED8AA4A,
     0x5B9CCA4F, 0x682E6FF3, 0x748F82EE, 0x78A5636F, 0x84C87814, 0x8CC70208,
     0x90BEFFFA, 0xA4506CEB, 0xBEF9A3F7, 0xC67178F2]"

definition sha_init :: sha_state where
  "sha_init =
    (0x6A09E667, 0xBB67AE85, 0x3C6EF372, 0xA54FF53A,
     0x510E527F, 0x9B05688C, 0x1F83D9AB, 0x5BE0CD19)"

definition ch :: "w32 \<Rightarrow> w32 \<Rightarrow> w32 \<Rightarrow> w32" where
  "ch x y z = (x AND y) XOR (NOT x AND z)"

definition maj :: "w32 \<Rightarrow> w32 \<Rightarrow> w32 \<Rightarrow> w32" where
  "maj x y z = (x AND y) XOR (x AND z) XOR (y AND z)"

definition big_sigma0 :: "w32 \<Rightarrow> w32" where
  "big_sigma0 x = word_rotr 2 x XOR word_rotr 13 x XOR word_rotr 22 x"

definition big_sigma1 :: "w32 \<Rightarrow> w32" where
  "big_sigma1 x = word_rotr 6 x XOR word_rotr 11 x XOR word_rotr 25 x"

definition small_sigma0 :: "w32 \<Rightarrow> w32" where
  "small_sigma0 x = word_rotr 7 x XOR word_rotr 18 x XOR drop_bit 3 x"

definition small_sigma1 :: "w32 \<Rightarrow> w32" where
  "small_sigma1 x = word_rotr 17 x XOR word_rotr 19 x XOR drop_bit 10 x"

definition be64 :: "nat \<Rightarrow> byte list" where
  "be64 n = map (\<lambda>i. of_nat (n div 2 ^ (8 * (7 - i)))) [0..<8]"

definition sha_pad :: "byte list \<Rightarrow> byte list" where
  "sha_pad m =
     m @ [0x80] @ replicate ((119 - length m mod 64) mod 64) 0 @ be64 (8 * length m)"

fun be_words :: "byte list \<Rightarrow> w32 list" where
  "be_words (a # b # c # d # rest) =
     (push_bit 24 (ucast a) OR push_bit 16 (ucast b) OR push_bit 8 (ucast c) OR ucast d)
       # be_words rest"
| "be_words _ = []"

definition schedule_step :: "w32 list \<Rightarrow> w32 list" where
  "schedule_step ws =
     (let t = length ws
      in ws @ [small_sigma1 (ws ! (t - 2)) + ws ! (t - 7)
                 + small_sigma0 (ws ! (t - 15)) + ws ! (t - 16)])"

definition schedule :: "byte list \<Rightarrow> w32 list" where
  "schedule block = (schedule_step ^^ 48) (be_words block)"

fun sha_round :: "sha_state \<Rightarrow> w32 \<times> w32 \<Rightarrow> sha_state" where
  "sha_round (a, b, c, d, e, f, g, h) (k, w) =
     (let t1 = h + big_sigma1 e + ch e f g + k + w;
          t2 = big_sigma0 a + maj a b c
      in (t1 + t2, a, b, c, d + t1, e, f, g))"

fun add_state :: "sha_state \<Rightarrow> sha_state \<Rightarrow> sha_state" where
  "add_state (a, b, c, d, e, f, g, h) (a', b', c', d', e', f', g', h') =
     (a + a', b + b', c + c', d + d', e + e', f + f', g + g', h + h')"

definition compress :: "sha_state \<Rightarrow> byte list \<Rightarrow> sha_state" where
  "compress st block = add_state st (foldl sha_round st (zip sha_k (schedule block)))"

fun sha_blocks :: "nat \<Rightarrow> sha_state \<Rightarrow> byte list \<Rightarrow> sha_state" where
  "sha_blocks 0 st bs = st"
| "sha_blocks (Suc n) st bs = sha_blocks n (compress st (take 64 bs)) (drop 64 bs)"

definition sha256 :: "byte list \<Rightarrow> sha_state" where
  "sha256 m = (let p = sha_pad m in sha_blocks (length p div 64) sha_init p)"

definition hex_digit :: "nat \<Rightarrow> char" where
  "hex_digit n = ''0123456789abcdef'' ! (n mod 16)"

definition hex32 :: "w32 \<Rightarrow> string" where
  "hex32 w = map (\<lambda>i. hex_digit (unat (drop_bit (4 * (7 - i)) w AND 0xF))) [0..<8]"

fun hex_of_state :: "sha_state \<Rightarrow> string" where
  "hex_of_state (a, b, c, d, e, f, g, h) =
     hex32 a @ hex32 b @ hex32 c @ hex32 d @ hex32 e @ hex32 f @ hex32 g @ hex32 h"

text \<open>
  A hasher object holds the bytes it was fed so far: \<open>update\<close> appends, and
  \<open>hexdigest\<close> is the digest of the whole, in lowercase hexadecimal.
\<close>

definition hasher_new :: "byte list" where
  "hasher_new = []"

definition hasher_update :: "byte list \<Rightarrow> byte list \<Rightarrow> byte list" where
  "hasher_update hasher bs = hasher @ bs"

definition hexdigest :: "byte list \<Rightarrow> string" where
  "hexdigest hasher = hex_of_state (sha256 hasher)"

section \<open>The fingerprint of a list of changes (review\_cache.py)\<close>

text \<open>
  A \<open>GitDiffChange\<close> is a dictionary read with \<open>change.get(key)\<close>: a field is
  \<open>None\<close> when the key is missing or holds \<open>None\<close>.
\<close>

record GitDiffChange =
  old_path :: "string option"
  new_path :: "string option"
  new_file :: "bool option"
  deleted_file :: "bool option"
  renamed_file :: "bool option"
  diff :: "string option"

text \<open>\<open>x or ""\<close> on an optional string, and the truth value of an optional flag.\<close>

definition or_empty :: "string option \<Rightarrow> string" where
  "or_empty v = (case v of None \<Rightarrow> [] | Some s \<Rightarrow> s)"

definition truthy :: "bool option \<Rightarrow> bool" where
  "truthy v = (case v of None \<Rightarrow> False | Some b \<Rightarrow> b)"

definition flags_code :: "'a GitDiffChange_scheme \<Rightarrow> string" where
  "flags_code change =
     concat
       [if truthy (new_file change) then ''N'' else ''-'',
        if truthy (deleted_file change) then ''D'' else ''-'',
        if truthy (renamed_file change) then ''R'' else ''-'']"

definition segment_lines :: "'a GitDiffChange_scheme \<Rightarrow> string list" where
  "segment_lines change =
     [''old_path:'' @ or_empty (old_path change),
      ''new_path:'' @ or_empty (new_path change),
      ''flags:'' @ flags_code change,
      ''diff:'',
      or_empty (diff change),
      ''---'']"

definition segment :: "'a GitDiffChange_scheme \<Rightarrow> string" where
  "segment change = join [nl] (segment_lines change)"

text \<open>The loop of \<open>_build_diff_hash\<close>: one \<open>hasher.update\<close> per change, in order.\<close>

fun feed_changes :: "byte list \<Rightarrow> 'a GitDiffChange_scheme list \<Rightarrow> byte list" where
  "feed_changes hasher [] = hasher"
| "feed_changes hasher (change # changes) =
     feed_changes (hasher_update hasher (encode_utf8 (segment change))) changes"

definition build_diff_hash :: "'a GitDiffChange_scheme list \<Rightarrow> string" where
  "build_diff_hash changes = hexdigest (feed_changes hasher_new changes)"

section \<open>Python values and the json module\<close>

text \<open>
  The values \<open>json.dumps\<close> writes and \<open>json.loads\<close> returns. A finite float is
  held as the decimal literal that \<open>repr\<close> prints for it; \<open>PObject\<close> stands for any
  object the encoder has no case for (bytes, a set, an instance of a class).
\<close>

datatype pyfloat = FNaN | FInf | FNegInf | FNum string

datatype pyval =
    PNone
  | PBool bool
  | PInt int
  | PFloat pyfloat
  | PStr string
  | PList "pyval list"
  | PDict "(string \<times> pyval) list"
  | PObject

datatype exn =
    OSError
  | SqliteError
  | JSONDecodeError
  | TypeError
  | UnboundLocalError

definition dquote :: char where
  "dquote = CHR 0x22"

definition bslash :: char where
  "bslash = CHR 0x5C"

definition is_digit :: "char \<Rightarrow> bool" where
  "is_digit c = (48 \<le> (of_char c :: nat) \<and> (of_char c :: nat) \<le> 57)"

definition digit_char :: "nat \<Rightarrow> char" where
  "digit_char n = char_of (48 + n)"

definition digit_val :: "char \<Rightarrow> nat" where
  "digit_val c = of_char c - 48"

fun digits_of :: "nat \<Rightarrow> string" where
  "digits_of n = (if n < 10 then [digit_char n] else digits_of (n div 10) @ [digit_char (n mod 10)])"

declare digits_of.simps [simp del]

definition nat_of_digits :: "string \<Rightarrow> nat" where
  "nat_of_digits ds = foldl (\<lambda>a c. 10 * a + digit_val c) 0 ds"

text \<open>\<open>int.__repr__\<close> and \<open>int(token)\<close> on a token of the number grammar.\<close>

definition repr_int :: "int \<Rightarrow> string" where
  "repr_int i = (if i < 0 then ''-'' @ digits_of (nat (- i)) else digits_of (nat i))"

definition int_of_token :: "string \<Rightarrow> int" where
  "int_of_token t =
     (case t of
        [] \<Rightarrow> 0
      | c # r \<Rightarrow> if c = CHR ''-'' then - int (nat_of_digits r) else int (nat_of_digits t))"

definition hex_val :: "char \<Rightarrow> nat option" where
  "hex_val c =
     (let n = (of_char c :: nat)
      in if 48 \<le> n \<and> n \<le> 57 then Some (n - 48)
         else if 97 \<le> n \<and> n \<le> 102 then Some (n - 87)
         else if 65 \<le> n \<and> n \<le> 70 then Some (n - 55)
         else None)"

definition hex4 :: "char \<Rightarrow> char \<Rightarrow> char \<Rightarrow> char \<Rightarrow> nat option" where
  "hex4 a b c d =
     (case (hex_val a, hex_val b, hex_val c, hex_val d) of
        (Some x, Some y, Some z, Some w) \<Rightarrow> Some (((x * 16 + y) * 16 + z) * 16 + w)
      | _ \<Rightarrow> None)"

subsection \<open>Encoding\<close>

text \<open>
  The encoder with its defaults (\<open>ensure_ascii=True\<close>, separators \<open>", "\<close> and
  \<open>": "\<close>): inside a string the quote, the backslash and five control characters have
  two-character escapes, a printable ASCII character stands for itself, and any other
  character is written \<open>\uXXXX\<close>.
\<close>

definition escape_char :: "char \<Rightarrow> string" where
  "escape_char c =
     (let n = (of_char c :: nat)
      in if c = dquote then [bslash, dquote]
         else if c = bslash then [bslash, bslash]
         else if n = 10 then [bslash, CHR ''n'']
         else if n = 13 then [bslash, CHR ''r'']
         else if n = 9 then [bslash, CHR ''t'']
         else if n = 8 then [bslash, CHR ''b'']
         else if n = 12 then [bslash, CHR ''f'']
         else if 32 \<le> n \<and> n \<le> 126 then [c]
         else [bslash, CHR ''u'', CHR ''0'', CHR ''0'', hex_digit (n div 16), hex_digit n])"

definition encode_str :: "string \<Rightarrow> string" where
  "encode_str s = [dquote] @ concat (map escape_char s) @ [dquote]"

definition repr_float :: "pyfloat \<Rightarrow> string" where
  "repr_float x =
     (case x of FNaN \<Rightarrow> ''NaN'' | FInf \<Rightarrow> ''Infinity'' | FNegInf \<Rightarrow> ''-Infinity'' | FNum t \<Rightarrow> t)"

fun sequence_opt :: "'a option list \<Rightarrow> 'a list option" where
  "sequence_opt [] = Some []"
| "sequence_opt (None # xs) = None"
| "sequence_opt (Some x # xs) = (case sequence_opt xs of None \<Rightarrow> None | Some ys \<Rightarrow> Some (x # ys))"

fun encode_val :: "pyval \<Rightarrow> string option"
  and encode_vals :: "pyval list \<Rightarrow> string list option"
  and encode_items :: "(string \<times> pyval) list \<Rightarrow> string list option" where
  "encode_val PNone = Some ''null''"
| "encode_val (PBool b) = Some (if b then ''true'' else ''false'')"
| "encode_val (PInt i) = Some (repr_int i)"
| "encode_val (PFloat x) = Some (repr_float x)"
| "encode_val (PStr s) = Some (encode_str s)"
| "encode_val (PList vs) =
     (case encode_vals vs of None \<Rightarrow> None | Some ts \<Rightarrow> Some (''['' @ join '', '' ts @ '']''))"
| "encode_val (PDict kvs) =
     (case encode_items kvs of None \<Rightarrow> None | Some ts \<Rightarrow> Some (''{'' @ join '', '' ts @ ''}''))"
| "encode_val PObject = None"
| "encode_vals [] = Some []"
| "encode_vals (v # vs) =
     (case encode_val v of
        None \<Rightarrow> None
      | Some t \<Rightarrow> (case encode_vals vs of None \<Rightarrow> None | Some ts \<Rightarrow> Some (t # ts)))"
| "encode_items [] = Some []"
| "encode_items (kv # kvs) =
     (case encode_val (snd kv) of
        None \<Rightarrow> None
      | Some t \<Rightarrow>
          (case encode_items kvs of
             None \<Rightarrow> None
           | Some ts \<Rightarrow> Some ((encode_str (fst kv) @ '': '' @ t) # ts)))"

text \<open>\<open>json.dumps(obj)\<close>: a value with no encoding raises \<open>TypeError\<close>.\<close>

definition json_dumps :: "pyval \<Rightarrow> exn + string" where
  "json_dumps v = (case encode_val v of None \<Rightarrow> Inl TypeError | Some t \<Rightarrow> Inr t)"

subsection \<open>Decoding\<close>

text \<open>
  The scanner of \<open>json.loads\<close>. Whitespace is space, tab, line feed and carriage
  return. A number is \<open>-?(0|[1-9][0-9]*)\<close> with an optional fraction and an optional
  exponent, an \<open>int\<close> when it has neither. A \<open>\uXXXX\<close> escape above 255 names a
  character this model of text does not have and is reported as undecodable.
\<close>

definition is_ws :: "char \<Rightarrow> bool" where
  "is_ws c = (c = CHR '' '' \<or> c = CHR 0x09 \<or> c = CHR 0x0A \<or> c = CHR 0x0D)"

definition skip_ws :: "string \<Rightarrow> string" where
  "skip_ws cs = dropWhile is_ws cs"

definition unescape :: "char \<Rightarrow> char option" where
  "unescape e =
     (if e = dquote then Some dquote
      else if e = bslash then Some bslash
      else if e = CHR ''/'' then Some CHR ''/''
      else if e = CHR ''b'' then Some (CHR 0x08)
      else if e = CHR ''f'' then Some (CHR 0x0C)
      else if e = CHR ''n'' then Some (CHR 0x0A)
      else if e = CHR ''r'' then Some (CHR 0x0D)
      else if e = CHR ''t'' then Some (CHR 0x09)
      else None)"

definition cons_char :: "char \<Rightarrow> (string \<times> string) option \<Rightarrow> (string \<times> string) option" where
  "cons_char c r = (case r of None \<Rightarrow> None | Some (s, rest) \<Rightarrow> Some (c # s, rest))"

text \<open>The text of a string literal, read from just after its opening quote.\<close>

fun scan_string :: "string \<Rightarrow> (string \<times> string) option" where
  "scan_string [] = None"
| "scan_string (c # r) =
     (if c = dquote then Some ([], r)
      else if c = bslash then
        (case r of
           [] \<Rightarrow> None
         | e # r1 \<Rightarrow>
             if e = CHR ''u'' then
               (case r1 of
                  h1 # h2 # h3 # h4 # r2 \<Rightarrow>
                    (case hex4 h1 h2 h3 h4 of
                       None \<Rightarrow> None
                     | Some n \<Rightarrow> if n < 256 then cons_char (char_of n) (scan_string r2) else None)
                | _ \<Rightarrow> None)
             else
               (case unescape e of
                  None \<Rightarrow> None
                | Some x \<Rightarrow> cons_char x (scan_string r1)))
      else if (of_char c :: nat) < 32 then None
      else cons_char c (scan_string r))"

definition scan_int_part :: "string \<Rightarrow> (string \<times> string) option" where
  "scan_int_part cs =
     (let sign = (if cs \<noteq> [] \<and> hd cs = CHR ''-'' then ''-'' else []);
          r = drop (length sign) cs
      in case r of
           [] \<Rightarrow> None
         | d # r1 \<Rightarrow>
             if d = CHR ''0'' then Some (sign @ ''0'', r1)
             else if is_digit d then Some (sign @ takeWhile is_digit r, dropWhile is_digit r)
             else None)"

definition scan_frac :: "string \<Rightarrow> string \<times> string" where
  "scan_frac cs =
     (case cs of
        p # d # r \<Rightarrow>
          if p = CHR ''.'' \<and> is_digit d
          then (p # takeWhile is_digit (d # r), dropWhile is_digit (d # r))
          else ([], cs)
      | _ \<Rightarrow> ([], cs))"

definition scan_exp :: "string \<Rightarrow> string \<times> string" where
  "scan_exp cs =
     (case cs of
        [] \<Rightarrow> ([], cs)
      | e # r \<Rightarrow>
          if e = CHR ''e'' \<or> e = CHR ''E'' then
            (let sign = (if r \<noteq> [] \<and> (hd r = CHR ''+'' \<or> hd r = CHR ''-'') then [hd r] else []);
                 r1 = drop (length sign) r
             in if r1 \<noteq> [] \<and> is_digit (hd r1)
                then (e # sign @ takeWhile is_digit r1, dropWhile is_digit r1)
                else ([], cs))
          else ([], cs))"

definition scan_number :: "string \<Rightarrow> (pyval \<times> string) option" where
  "scan_number cs =
     (case scan_int_part cs of
        None \<Rightarrow> None
      | Some (ip, r) \<Rightarrow>
          (let (fp, r1) = scan_frac r;
               (ep, r2) = scan_exp r1
           in if fp = [] \<and> ep = [] then Some (PInt (int_of_token ip), r2)
              else Some (PFloat (FNum (ip @ fp @ ep)), r2)))"

text \<open>\<open>dict[key] = value\<close> while the pairs of an object are collected.\<close>

fun dict_set :: "(string \<times> pyval) list \<Rightarrow> string \<Rightarrow> pyval \<Rightarrow> (string \<times> pyval) list" where
  "dict_set [] k v = [(k, v)]"
| "dict_set (kv # kvs) k v = (if fst kv = k then (k, v) # kvs else kv # dict_set kvs k v)"

text \<open>
  The value at the head of the text, with the text after it. The first argument bounds
  the number of nested calls; \<open>json_loads\<close> starts it above twice the length of the text,
  which the scanner cannot use up: every call but the first comes after a character was
  read, or is the call for an element that a character must follow.
\<close>

fun scan_once :: "nat \<Rightarrow> string \<Rightarrow> (pyval \<times> string) option"
  and scan_array :: "nat \<Rightarrow> pyval list \<Rightarrow> string \<Rightarrow> (pyval \<times> string) option"
  and scan_object :: "nat \<Rightarrow> (string \<times> pyval) list \<Rightarrow> string \<Rightarrow> (pyval \<times> string) option" where
  "scan_once 0 cs = None"
| "scan_once (Suc n) cs =
     (case cs of
        [] \<Rightarrow> None
      | c # r \<Rightarrow>
          if c = dquote then
            (case scan_string r of None \<Rightarrow> None | Some (s, r1) \<Rightarrow> Some (PStr s, r1))
          else if c = CHR ''{'' then
            (case skip_ws r of
               [] \<Rightarrow> None
             | d # r1 \<Rightarrow>
                 if d = CHR ''}'' then Some (PDict [], r1)
                 else scan_object n [] (d # r1))
          else if c = CHR ''['' then
            (case skip_ws r of
               [] \<Rightarrow> None
             | d # r1 \<Rightarrow>
                 if d = CHR '']'' then Some (PList [], r1)
                 else scan_array n [] (d # r1))
          else if take 4 cs = ''null'' then Some (PNone, drop 4 cs)
          else if take 4 cs = ''true'' then Some (PBool True, drop 4 cs)
          else if take 5 cs = ''false'' then Some (PBool False, drop 5 cs)
          else
            (case scan_number cs of
               Some x \<Rightarrow> Some x
             | None \<Rightarrow>
                 if take 3 cs = ''NaN'' then Some (PFloat FNaN, drop 3 cs)
                 else if take 8 cs = ''Infinity'' then Some (PFloat FInf, drop 8 cs)
                 else if take 9 cs = ''-Infinity'' then Some (PFloat FNegInf, drop 9 cs)
                 else None))"
| "scan_array 0 acc cs = None"
| "scan_array (Suc n) acc cs =
     (case scan_once n cs of
        None \<Rightarrow> None
      | Some (v, r) \<Rightarrow>
          (case skip_ws r of
             [] \<Rightarrow> None
           | d # r1 \<Rightarrow>
               if d = CHR '']'' then Some (PList (acc @ [v]), r1)
               else if d = CHR '','' then scan_array n (acc @ [v]) (skip_ws r1)
               else None))"
| "scan_object 0 acc cs = None"
| "scan_object (Suc n) acc cs =
     (case cs of
        [] \<Rightarrow> None
      | q # r \<Rightarrow>
          if q \<noteq> dquote then None
          else
            (case scan_string r of
               None \<Rightarrow> None
             | Some (k, r1) \<Rightarrow>
                 (case skip_ws r1 of
                    [] \<Rightarrow> None
                  | c # r2 \<Rightarrow>
                      if c \<noteq> CHR '':'' then None
                      else
                        (case scan_once n (skip_ws r2) of
                           None \<Rightarrow> None
                         | Some (v, r3) \<Rightarrow>
                             (case skip_ws r3 of
                                [] \<Rightarrow> None
                              | d # r4 \<Rightarrow>
                                  if d = CHR ''}'' then Some (PDict (dict_set acc k v), r4)
                                  else if d = CHR '','' then scan_object n (dict_set acc k v) (skip_ws r4)
                                  else None)))))"

text \<open>
  \<open>json.loads(s)\<close>: leading whitespace, one value, trailing whitespace and nothing
  else; anything else raises \<open>JSONDecodeError\<close>.
\<close>

definition json_loads :: "string \<Rightarrow> exn + pyval" where
  "json_loads s =
     (case scan_once (Suc (2 * length s)) (skip_ws s) of
        None \<Rightarrow> Inl JSONDecodeError
      | Some (v, r) \<Rightarrow> if skip_ws r = [] then Inr v else Inl JSONDecodeError)"

section \<open>The store: environment, files and SQLite (review\_cache.py)\<close>

text \<open>
  What the module reads and writes outside itself: the environment, the directories
  that exist, the \<open>review_cache\<close> table of the database file at each path (\<open>None\<close>
  while the file has no such table), the number of connections that are open, and the
  log. A row is \<open>(provider, model, diff_hash, result_json)\<close>.
\<close>

type_synonym row = "string \<times> string \<times> string \<times> string"

type_synonym cache_key = "string \<times> string \<times> string"

record world =
  environ :: "string \<rightharpoonup> string"
  dirs :: "string set"
  tables :: "string \<rightharpoonup> row list"
  open_conns :: nat
  log :: "string list"

text \<open>
  Which calls into \<open>os\<close> and \<open>sqlite3\<close> fail during one call of the module: each is
  made at most once per call, and each may raise whatever the state of the store.
\<close>

record faults =
  makedirs_fails :: bool
  connect_fails :: bool
  create_fails :: bool
  select_fails :: bool
  fetch_fails :: bool
  insert_fails :: bool
  commit_fails :: bool

definition row_key :: "row \<Rightarrow> cache_key" where
  "row_key r = (case r of (p, m, h, j) \<Rightarrow> (p, m, h))"

definition row_json :: "row \<Rightarrow> string" where
  "row_json r = (case r of (p, m, h, j) \<Rightarrow> j)"

definition DEFAULT_DB_PATH :: string where
  "DEFAULT_DB_PATH = ''data/review_cache.db''"

definition DB_ENV_NAME :: string where
  "DB_ENV_NAME = ''REVIEW_CACHE_DB_PATH''"

text \<open>\<open>str.strip()\<close>: the characters below 256 that \<open>str.isspace\<close> accepts.\<close>

definition is_space :: "char \<Rightarrow> bool" where
  "is_space c =
     (let n = (of_char c :: nat)
      in (9 \<le> n \<and> n \<le> 13) \<or> (28 \<le> n \<and> n \<le> 32) \<or> n = 133 \<or> n = 160)"

definition strip :: "string \<Rightarrow> string" where
  "strip s = rev (dropWhile is_space (rev (dropWhile is_space s)))"

definition get_db_path :: "world \<Rightarrow> string" where
  "get_db_path w =
     (case environ w DB_ENV_NAME of
        None \<Rightarrow> DEFAULT_DB_PATH
      | Some v \<Rightarrow> if v \<noteq> [] \<and> strip v \<noteq> [] then strip v else DEFAULT_DB_PATH)"

text \<open>\<open>os.path.dirname\<close> (posixpath).\<close>

definition dirname :: "string \<Rightarrow> string" where
  "dirname p =
     (let head = rev (dropWhile (\<lambda>c. c \<noteq> CHR ''/'') (rev p))
      in if head \<noteq> [] \<and> head \<noteq> replicate (length head) CHR ''/''
         then rev (dropWhile (\<lambda>c. c = CHR ''/'') (rev head))
         else head)"

text \<open>
  \<open>_get_connection\<close>: the directory, the connection, the schema. The connection is the
  path of the database it is open on. A failure of \<open>CREATE TABLE\<close> leaves the function
  by the exception, after \<open>sqlite3.connect\<close> has opened the connection.
\<close>

definition get_connection :: "faults \<Rightarrow> world \<Rightarrow> (exn + string) \<times> world" where
  "get_connection flt w =
     (let path = get_db_path w;
          directory = dirname path
      in if directory \<noteq> [] \<and> makedirs_fails flt then (Inl OSError, w)
         else
           (let w1 = (if directory \<noteq> [] then w\<lparr>dirs := insert directory (dirs w)\<rparr> else w)
            in if connect_fails flt then (Inl SqliteError, w1)
               else
                 (let w2 = w1\<lparr>open_conns := Suc (open_conns w1)\<rparr>
                  in if create_fails flt then (Inl SqliteError, w2)
                     else
                       (Inr path,
                        (case tables w2 path of
                           None \<Rightarrow> w2\<lparr>tables := (tables w2)(path \<mapsto> [])\<rparr>
                         | Some rows \<Rightarrow> w2)))))"

text \<open>
  \<open>conn.close()\<close> on the local variable \<open>conn\<close>, which is unbound (\<open>None\<close> here) when
  \<open>_get_connection\<close> raised.
\<close>

definition conn_close :: "string option \<Rightarrow> world \<Rightarrow> (exn + unit) \<times> world" where
  "conn_close conn w =
     (case conn of
        None \<Rightarrow> (Inl UnboundLocalError, w)
      | Some c \<Rightarrow> (Inr (), w\<lparr>open_conns := open_conns w - 1\<rparr>))"

text \<open>The \<open>finally\<close> clause of both functions: \<open>try: conn.close() except Exception: pass\<close>.\<close>

definition finally_close :: "string option \<Rightarrow> world \<Rightarrow> world" where
  "finally_close conn w = snd (conn_close conn w)"

definition logger_exception :: "string \<Rightarrow> world \<Rightarrow> world" where
  "logger_exception msg w = w\<lparr>log := log w @ [msg]\<rparr>"

text \<open>The \<open>SELECT\<close> with \<open>fetchone\<close>: the first row of the key, if any.\<close>

definition select_row :: "cache_key \<Rightarrow> row list \<Rightarrow> row option" where
  "select_row k rows = find (\<lambda>r. row_key r = k) rows"

text \<open>
  \<open>INSERT ... ON CONFLICT(provider, model, diff_hash) DO UPDATE SET result_json\<close>: a
  row of the key gets the new payload, and without one the row is added.
\<close>

definition upsert :: "cache_key \<Rightarrow> string \<Rightarrow> row list \<Rightarrow> row list" where
  "upsert k payload rows =
     (if \<exists>r \<in> set rows. row_key r = k
      then map (\<lambda>r. if row_key r = k then (fst k, fst (snd k), snd (snd k), payload) else r) rows
      else rows @ [(fst k, fst (snd k), snd (snd k), payload)])"

text \<open>
  The \<open>try\<close> block of \<open>get_cached_review_for_changes\<close>: the binding of \<open>conn\<close>, the
  world, and the value returned or the exception raised.
\<close>

definition get_try :: "faults \<Rightarrow> world \<Rightarrow> cache_key \<Rightarrow> string option \<times> world \<times> (exn + pyval)" where
  "get_try flt w k =
     (case get_connection flt w of
        (Inl e, w1) \<Rightarrow> (None, w1, Inl e)
      | (Inr conn, w1) \<Rightarrow>
          if select_fails flt then (Some conn, w1, Inl SqliteError)
          else
            (case tables w1 conn of
               None \<Rightarrow> (Some conn, w1, Inl SqliteError)
             | Some rows \<Rightarrow>
                 if fetch_fails flt then (Some conn, w1, Inl SqliteError)
                 else
                   (case select_row k rows of
                      None \<Rightarrow> (Some conn, w1, Inr PNone)
                    | Some r \<Rightarrow> (Some conn, w1, json_loads (row_json r)))))"

definition get_cached_review_for_changes ::
  "faults \<Rightarrow> world \<Rightarrow> string \<Rightarrow> string \<Rightarrow> 'a GitDiffChange_scheme list \<Rightarrow> (exn + pyval) \<times> world" where
  "get_cached_review_for_changes flt w provider model changes =
     (let diff_hash = build_diff_hash changes;
          (conn, w1, r) = get_try flt w (provider, model, diff_hash);
          (ret, w2) =
            (case r of
               Inl e \<Rightarrow>
                 (Inr PNone, logger_exception ''Failed to read review cache; skipping cache usage.'' w1)
             | Inr v \<Rightarrow> (Inr v, w1))
      in (ret, finally_close conn w2))"

text \<open>
  The \<open>try\<close> block of \<open>put_cached_review_for_changes\<close>. The \<open>INSERT\<close> runs in a
  transaction that \<open>conn.commit()\<close> writes to the file; without the commit,
  \<open>conn.close()\<close> drops it.
\<close>

definition put_try :: "faults \<Rightarrow> world \<Rightarrow> cache_key \<Rightarrow> pyval \<Rightarrow> string option \<times> world \<times> (exn + unit)" where
  "put_try flt w k result =
     (case get_connection flt w of
        (Inl e, w1) \<Rightarrow> (None, w1, Inl e)
      | (Inr conn, w1) \<Rightarrow>
          (case json_dumps result of
             Inl e \<Rightarrow> (Some conn, w1, Inl e)
           | Inr payload \<Rightarrow>
               if insert_fails flt then (Some conn, w1, Inl SqliteError)
               else
                 (case tables w1 conn of
                    None \<Rightarrow> (Some conn, w1, Inl SqliteError)
                  | Some rows \<Rightarrow>
                      if commit_fails flt then (Some conn, w1, Inl SqliteError)
                      else
                        (Some conn,
                         w1\<lparr>tables := (tables w1)(conn \<mapsto> upsert k payload rows)\<rparr>,
                         Inr ()))))"

definition put_cached_review_for_changes ::
  "faults \<Rightarrow> world \<Rightarrow> string \<Rightarrow> string \<Rightarrow> 'a GitDiffChange_scheme list \<Rightarrow> pyval \<Rightarrow> (exn + unit) \<times> world" where
  "put_cached_review_for_changes flt w provider model changes result =
     (let diff_hash = build_diff_hash changes;
          (conn, w1, r) = put_try flt w (provider, model, diff_hash) result;
          (ret, w2) =
            (case r of
               Inl e \<Rightarrow>
                 (Inr (),
                  logger_exception ''Failed to write review cache; ignoring cache persistence error.'' w1)
             | Inr u \<Rightarrow> (Inr (), w1))
      in (ret, finally_close conn w2))"

section \<open>Notions the properties are stated with\<close>

text \<open>
  What the fingerprint reads of a change: the two paths and the diff text after
  \<open>or ""\<close>, and the truth values of the three flags.
\<close>

definition fingerprint_fields ::
  "'a GitDiffChange_scheme \<Rightarrow> string \<times> string \<times> bool \<times> bool \<times> bool \<times> string" where
  "fingerprint_fields c =
     (or_empty (old_path c), or_empty (new_path c), truthy (new_file c),
      truthy (deleted_file c), truthy (renamed_file c), or_empty (diff c))"

text \<open>The rows of the table in the database at a path; none while there is no table.\<close>

definition rows_of :: "world \<Rightarrow> string \<Rightarrow> row list" where
  "rows_of w path = (case tables w path of None \<Rightarrow> [] | Some rows \<Rightarrow> rows)"

text \<open>
  What fails in a call: \<open>_get_connection\<close> raises, the read raises before a row is
  fetched, the write raises before its commit is done. A connection is left open when
  \<open>sqlite3.connect\<close> returned it and the schema statement raised.
\<close>

definition connection_fails :: "faults \<Rightarrow> world \<Rightarrow> bool" where
  "connection_fails flt w =
     ((dirname (get_db_path w) \<noteq> [] \<and> makedirs_fails flt) \<or> connect_fails flt \<or> create_fails flt)"

definition read_fails :: "faults \<Rightarrow> world \<Rightarrow> bool" where
  "read_fails flt w = (connection_fails flt w \<or> select_fails flt \<or> fetch_fails flt)"

definition write_fails :: "faults \<Rightarrow> world \<Rightarrow> pyval \<Rightarrow> bool" where
  "write_fails flt w result =
     (connection_fails flt w \<or> encode_val result = None \<or> insert_fails flt \<or> commit_fails flt)"

definition leaks_connection :: "faults \<Rightarrow> world \<Rightarrow> bool" where
  "leaks_connection flt w =
     (\<not> (dirname (get_db_path w) \<noteq> [] \<and> makedirs_fails flt) \<and> \<not> connect_fails flt \<and> create_fails flt)"

text \<open>
  The text fed to the hasher for a list of changes, before its encoding: the segments
  one after the other. A change is plain when neither path holds a line feed and the
  diff text does not hold the line feed, the three dashes and the \<open>old_path:\<close> that
  end one segment and start the next.
\<close>

definition record_boundary :: string where
  "record_boundary = nl # ''---old_path:''"

definition plain_change :: "'a GitDiffChange_scheme \<Rightarrow> bool" where
  "plain_change c =
     (nl \<notin> set (or_empty (old_path c)) \<and> nl \<notin> set (or_empty (new_path c))
      \<and> \<not> sublist record_boundary (or_empty (diff c)))"

definition canonical :: "'a GitDiffChange_scheme list \<Rightarrow> string" where
  "canonical changes = concat (map segment changes)"

text \<open>Two different inputs with the same digest.\<close>

definition sha256_collision :: "byte list \<Rightarrow> byte list \<Rightarrow> bool" where
  "sha256_collision a b = (a \<noteq> b \<and> hexdigest a = hexdigest b)"

text \<open>A change of one file, with both paths and all three flags given.\<close>

definition change_of :: "string \<Rightarrow> string \<Rightarrow> GitDiffChange" where
  "change_of path text =
     \<lparr>old_path = Some path, new_path = Some path, new_file = Some False,
      deleted_file = Some False, renamed_file = Some False, diff = Some text\<rparr>"

text \<open>
  What may follow a value in an encoded text: nothing, a comma, or the bracket or brace
  that closes the enclosing array or object.
\<close>

definition delim :: "string \<Rightarrow> bool" where
  "delim rest = (rest = [] \<or> hd rest = CHR '','' \<or> hd rest = CHR '']'' \<or> hd rest = CHR ''}'')"

text \<open>A literal of the number grammar with a fraction or an exponent, and nothing after it.\<close>

definition float_token :: "string \<Rightarrow> bool" where
  "float_token t = (scan_number t = Some (PFloat (FNum t), []))"

text \<open>What cannot continue a number literal.\<close>

definition num_stop :: "string \<Rightarrow> bool" where
  "num_stop rest =
     (rest = [] \<or> (\<not> is_digit (hd rest) \<and> hd rest \<noteq> CHR ''.'' \<and> hd rest \<noteq> CHR ''e''
        \<and> hd rest \<noteq> CHR ''E'' \<and> hd rest \<noteq> CHR ''+'' \<and> hd rest \<noteq> CHR ''-''))"

text \<open>
  The values that \<open>json.dumps\<close> encodes and \<open>json.loads\<close> gives back: no object
  without an encoding, every finite float held as a literal of the number grammar, and
  the keys of every dictionary distinct, as the keys of a dictionary are.
\<close>

fun json_safe :: "pyval \<Rightarrow> bool"
  and json_safe_list :: "pyval list \<Rightarrow> bool"
  and json_safe_items :: "(string \<times> pyval) list \<Rightarrow> bool" where
  "json_safe PNone = True"
| "json_safe (PBool b) = True"
| "json_safe (PInt i) = True"
| "json_safe (PFloat x) = (case x of FNum t \<Rightarrow> float_token t | _ \<Rightarrow> True)"
| "json_safe (PStr s) = True"
| "json_safe (PList vs) = json_safe_list vs"
| "json_safe (PDict kvs) = (distinct (map fst kvs) \<and> json_safe_items kvs)"
| "json_safe PObject = False"
| "json_safe_list [] = True"
| "json_safe_list (v # vs) = (json_safe v \<and> json_safe_list vs)"
| "json_safe_items [] = True"
| "json_safe_items (kv # kvs) = (json_safe (snd kv) \<and> json_safe_items kvs)"

text \<open>The number of nested calls the scanner makes on the encoding of a value.\<close>

fun fuel :: "pyval \<Rightarrow> nat"
  and fuel_list :: "pyval list \<Rightarrow> nat"
  and fuel_items :: "(string \<times> pyval) list \<Rightarrow> nat" where
  "fuel PNone = 1"
| "fuel (PBool b) = 1"
| "fuel (PInt i) = 1"
| "fuel (PFloat x) = 1"
| "fuel (PStr s) = 1"
| "fuel (PList vs) = Suc (fuel_list vs)"
| "fuel (PDict kvs) = Suc (fuel_items kvs)"
| "fuel PObject = 1"
| "fuel_list [] = 0"
| "fuel_list (v # vs) = Suc (max (fuel v) (fuel_list vs))"
| "fuel_items [] = 0"
| "fuel_items (kv # kvs) = Suc (max (fuel (snd kv)) (fuel_items kvs))"

text \<open>How an encoded value starts: with a character that is neither whitespace nor a closing bracket.\<close>

definition starts_value :: "string \<Rightarrow> bool" where
  "starts_value t = (t \<noteq> [] \<and> \<not> is_ws (hd t) \<and> hd t \<noteq> CHR '']'' \<and> hd t \<noteq> CHR ''}'')"

text \<open>
  Modelled from the spec: the type \<open>LLMReviewResult\<close> of \<open>types.py\<close>, which is not among
  the sources. A review result is a dictionary with the string fields \<open>content\<close>,
  \<open>provider\<close> and \<open>model\<close>, the duration \<open>elapsed_seconds\<close> (a finite float, or an
  integer), and the token counts \<open>input_tokens\<close>, \<open>output_tokens\<close> and \<open>total_tokens\<close>,
  each an integer or \<open>None\<close> or absent.
\<close>

definition field_ok :: "string \<Rightarrow> pyval \<Rightarrow> bool" where
  "field_ok k v =
     (if k = ''content'' \<or> k = ''provider'' \<or> k = ''model''
        then (case v of PStr s \<Rightarrow> True | _ \<Rightarrow> False)
      else if k = ''elapsed_seconds''
        then (case v of PFloat (FNum t) \<Rightarrow> float_token t | PInt i \<Rightarrow> True | _ \<Rightarrow> False)
      else if k = ''input_tokens'' \<or> k = ''output_tokens'' \<or> k = ''total_tokens''
        then (case v of PInt i \<Rightarrow> True | PNone \<Rightarrow> True | _ \<Rightarrow> False)
      else False)"

definition is_review_result :: "pyval \<Rightarrow> bool" where
  "is_review_result v =
     (case v of
        PDict kvs \<Rightarrow>
          distinct (map fst kvs) \<and> list_all (\<lambda>kv. field_ok (fst kv) (snd kv)) kvs
          \<and> set [''content'', ''provider'', ''model'', ''elapsed_seconds''] \<subseteq> fst ` set kvs
      | _ \<Rightarrow> False)"

text \<open>The store operates without failure.\<close>

definition no_faults :: "faults \<Rightarrow> bool" where
  "no_faults flt =
     (\<not> makedirs_fails flt \<and> \<not> connect_fails flt \<and> \<not> create_fails flt \<and> \<not> select_fails flt
      \<and> \<not> fetch_fails flt \<and> \<not> insert_fails flt \<and> \<not> commit_fails flt)"

text \<open>The primary key holds: in every table, no two rows have the same key.\<close>

definition pk_ok :: "world \<Rightarrow> bool" where
  "pk_ok w = (\<forall>path. distinct (map row_key (rows_of w path)))"

text \<open>
  The states of the store that the module can bring about: it starts without any
  database, and every call of either function, whatever fails in it, leads from one
  state to the next.
\<close>

inductive reachable :: "world \<Rightarrow> bool" where
  fresh: "tables w = Map.empty \<Longrightarrow> reachable w"
| after_put:
    "reachable w \<Longrightarrow>
     reachable (snd (put_cached_review_for_changes flt w provider model (changes :: GitDiffChange list) result))"
| after_get:
    "reachable w \<Longrightarrow>
     reachable (snd (get_cached_review_for_changes flt w provider model (changes :: GitDiffChange list)))"

text \<open>
  A store with no database yet and the default path, calls in which nothing fails, a
  review result, and a store whose table holds one row with a given payload.
\<close>

definition empty_world :: world where
  "empty_world = \<lparr>environ = Map.empty, dirs = {}, tables = Map.empty, open_conns = 0, log = []\<rparr>"

definition no_fault :: faults where
  "no_fault =
     \<lparr>makedirs_fails = False, connect_fails = False, create_fails = False, select_fails = False,
      fetch_fails = False, insert_fails = False, commit_fails = False\<rparr>"

definition review_of :: "string \<Rightarrow> pyval" where
  "review_of text =
     PDict [(''content'', PStr text), (''provider'', PStr ''openai''), (''model'', PStr ''gpt-4''),
            (''elapsed_seconds'', PFloat (FNum ''1.5'')), (''input_tokens'', PInt 10),
            (''output_tokens'', PNone)]"

definition stored_world :: "cache_key \<Rightarrow> string \<Rightarrow> world" where
  "stored_world k payload =
     empty_world\<lparr>tables := [DEFAULT_DB_PATH \<mapsto> [(fst k, fst (snd k), snd (snd k), payload)]]\<rparr>"

section \<open>Properties of the fingerprint\<close>

lemma segment_eq:
  "segment c =
     ''old_path:'' @ or_empty (old_path c) @ [nl] @ ''new_path:'' @ or_empty (new_path c) @ [nl]
       @ ''flags:'' @ flags_code c @ [nl] @ ''diff:'' @ [nl] @ or_empty (diff c) @ [nl] @ ''---''"
  by (simp add: segment_def segment_lines_def)

lemma feed_changes_eq:
  "feed_changes h cs = h @ encode_utf8 (concat (map segment cs))"
  by (induction cs arbitrary: h) (simp_all add: hasher_update_def encode_utf8_def)

lemma build_diff_hash_eq:
  "build_diff_hash cs = hexdigest (encode_utf8 (concat (map segment cs)))"
  by (simp add: build_diff_hash_def feed_changes_eq hasher_new_def)

lemma hex_digit_in: "hex_digit n \<in> set ''0123456789abcdef''"
  unfolding hex_digit_def by (rule nth_mem) simp

lemma length_hex32: "length (hex32 w) = 8"
  by (simp add: hex32_def)

lemma set_hex32: "set (hex32 w) \<subseteq> set ''0123456789abcdef''"
  unfolding hex32_def using hex_digit_in by auto

lemma length_hex_of_state: "length (hex_of_state st) = 64"
  by (cases st rule: hex_of_state.cases) (simp add: length_hex32)

lemma set_hex_of_state: "set (hex_of_state st) \<subseteq> set ''0123456789abcdef''"
proof (cases st rule: hex_of_state.cases)
  case (1 a b c d e f g h)
  show ?thesis
    unfolding 1 hex_of_state.simps set_append
    using set_hex32 by blast
qed

lemma length_hexdigest: "length (hexdigest bs) = 64"
  by (simp add: hexdigest_def length_hex_of_state)

lemma set_hexdigest: "set (hexdigest bs) \<subseteq> set ''0123456789abcdef''"
  by (simp only: hexdigest_def set_hex_of_state)

lemma segment_fields:
  "fingerprint_fields c = fingerprint_fields c' \<Longrightarrow> segment c = segment c'"
  by (simp add: fingerprint_fields_def segment_eq flags_code_def)

text \<open>
  Claim C9. The fingerprint of any list of changes is 64 characters long and every one
  of them is a lowercase hexadecimal digit. The flags code of a change has exactly three
  characters: the first is \<open>N\<close> when the change is a new file and \<open>-\<close> otherwise, the
  second \<open>D\<close> for a deleted file, the third \<open>R\<close> for a renamed file; it is what follows
  \<open>flags:\<close> on the third line of the segment.
\<close>

theorem build_diff_hash_format:
  "length (build_diff_hash changes) = 64
   \<and> set (build_diff_hash changes) \<subseteq> set ''0123456789abcdef''
   \<and> length (flags_code c) = 3
   \<and> flags_code c ! 0 = (if truthy (new_file c) then CHR ''N'' else CHR ''-'')
   \<and> flags_code c ! 1 = (if truthy (deleted_file c) then CHR ''D'' else CHR ''-'')
   \<and> flags_code c ! 2 = (if truthy (renamed_file c) then CHR ''R'' else CHR ''-'')
   \<and> segment_lines c ! 2 = ''flags:'' @ flags_code c"
proof -
  have "set (build_diff_hash changes) \<subseteq> set ''0123456789abcdef''"
    unfolding build_diff_hash_eq by (rule set_hexdigest)
  moreover have "length (build_diff_hash changes) = 64"
    unfolding build_diff_hash_eq by (rule length_hexdigest)
  moreover have "length (flags_code c) = 3"
    by (simp add: flags_code_def)
  moreover have "flags_code c ! 0 = (if truthy (new_file c) then CHR ''N'' else CHR ''-'')"
    by (simp add: flags_code_def)
  moreover have "flags_code c ! 1 = (if truthy (deleted_file c) then CHR ''D'' else CHR ''-'')"
    by (simp add: flags_code_def)
  moreover have "flags_code c ! 2 = (if truthy (renamed_file c) then CHR ''R'' else CHR ''-'')"
    by (simp add: flags_code_def)
  moreover have "segment_lines c ! 2 = ''flags:'' @ flags_code c"
    by (simp add: segment_lines_def)
  ultimately show ?thesis by blast
qed

text \<open>
  Claim C4. The fingerprint is a function of the paths, the flags and the diff texts of
  the changes, in their order: two lists of changes that agree on these, whatever else
  their dictionaries hold, have the same fingerprint. Neither the clock, a random source
  nor the environment is an argument of \<open>build_diff_hash\<close>.
\<close>

theorem build_diff_hash_deterministic:
  assumes "map fingerprint_fields changes = map fingerprint_fields changes'"
  shows "build_diff_hash changes = build_diff_hash changes'"
proof -
  have "map segment changes = map segment changes'"
    using assms
  proof (induction changes arbitrary: changes')
    case Nil
    then show ?case by simp
  next
    case (Cons c cs)
    then obtain c' cs' where "changes' = c' # cs'" by (cases changes') auto
    with Cons show ?case by (auto dest: segment_fields)
  qed
  then show ?thesis by (simp add: build_diff_hash_eq)
qed

theorem build_diff_hash_deterministic_witness:
  "build_diff_hash
     [\<lparr>old_path = Some ''a.py'', new_path = Some ''a.py'', new_file = None,
       deleted_file = Some False, renamed_file = None, diff = Some ''+x''\<rparr>]
   = build_diff_hash
     [\<lparr>old_path = Some ''a.py'', new_path = Some ''a.py'', new_file = Some False,
       deleted_file = None, renamed_file = None, diff = Some ''+x'', \<dots> = ''100644''\<rparr>]"
  by (rule build_diff_hash_deterministic) (simp add: fingerprint_fields_def or_empty_def truthy_def)

lemma split_at_newline:
  "nl \<notin> set a \<Longrightarrow> nl \<notin> set b \<Longrightarrow> a @ nl # x = b @ nl # y \<Longrightarrow> a = b \<and> x = y"
proof (induction a arbitrary: b)
  case Nil
  then show ?case by (cases b) auto
next
  case (Cons c a)
  then show ?case by (cases b) auto
qed

lemma flags_code_inj:
  "flags_code c = flags_code c' \<Longrightarrow>
     truthy (new_file c) = truthy (new_file c') \<and> truthy (deleted_file c) = truthy (deleted_file c')
     \<and> truthy (renamed_file c) = truthy (renamed_file c')"
  by (simp add: flags_code_def split: if_splits)

lemma length_flags_code: "length (flags_code c) = 3"
  by (simp add: flags_code_def)

lemma canonical_start:
  "canonical cs = [] \<or> (\<exists>t. canonical cs = ''old_path:'' @ t)"
  by (cases cs) (simp_all add: canonical_def segment_eq)

lemma suffix_head:
  "u @ v = x # b \<Longrightarrow> u \<noteq> [] \<Longrightarrow> v \<noteq> [] \<Longrightarrow> hd v \<in> set b"
  by (cases u) (auto simp: neq_Nil_conv)

lemma boundary_overlap:
  assumes eq: "u @ nl # ''---'' @ r = nl # ''---'' @ r'"
    and r': "r' = [] \<or> (\<exists>t. r' = ''old_path:'' @ t)"
  shows "u = [] \<or> prefix record_boundary u"
proof (cases "r' = []")
  case True
  with eq have "length (u @ nl # ''---'' @ r) = 4" by simp
  then show ?thesis by simp
next
  case False
  with r' obtain t where t: "r' = ''old_path:'' @ t" by blast
  have "u @ (nl # ''---'' @ r) = record_boundary @ t"
    using eq by (simp add: t record_boundary_def)
  then obtain v where v: "(u = record_boundary @ v) \<or> (u @ v = record_boundary \<and> nl # ''---'' @ r = v @ t)"
    by (auto simp: append_eq_append_conv2)
  show ?thesis
  proof (cases "u = record_boundary @ v")
    case True
    then show ?thesis by simp
  next
    case False
    with v have uv: "u @ v = record_boundary" and vt: "nl # ''---'' @ r = v @ t" by auto
    show ?thesis
    proof (cases "v = []")
      case True
      with uv show ?thesis by simp
    next
      case vne: False
      then have hd: "hd v = nl" using vt by (cases v) auto
      show ?thesis
      proof (cases "u = []")
        case True
        then show ?thesis by simp
      next
        case False
        from uv have "u @ v = nl # ''---old_path:''" by (simp add: record_boundary_def)
        from suffix_head [OF this False vne] hd have "nl \<in> set ''---old_path:''" by simp
        then show ?thesis by (simp add: nl_def)
      qed
    qed
  qed
qed

lemma diff_boundary_half:
  assumes eq: "d = d' @ u" "u @ nl # ''---'' @ r = nl # ''---'' @ r'"
    and r': "r' = [] \<or> (\<exists>t. r' = ''old_path:'' @ t)"
    and d: "\<not> sublist record_boundary d"
  shows "d = d' \<and> r = r'"
proof -
  from boundary_overlap [OF eq(2) r'] have "u = [] \<or> prefix record_boundary u" .
  moreover have "\<not> prefix record_boundary u"
  proof
    assume "prefix record_boundary u"
    then obtain z where "u = record_boundary @ z" by (auto simp: prefix_def)
    with eq(1) have "d = d' @ record_boundary @ z" by simp
    then have "sublist record_boundary d" unfolding sublist_def by blast
    with d show False by simp
  qed
  ultimately have "u = []" by blast
  with eq show ?thesis by simp
qed

lemma diff_boundary:
  assumes eq: "d @ nl # ''---'' @ r = d' @ nl # ''---'' @ r'"
    and r: "r = [] \<or> (\<exists>t. r = ''old_path:'' @ t)"
    and r': "r' = [] \<or> (\<exists>t. r' = ''old_path:'' @ t)"
    and d: "\<not> sublist record_boundary d" and d': "\<not> sublist record_boundary d'"
  shows "d = d' \<and> r = r'"
proof -
  from eq obtain u where
    "(d = d' @ u \<and> u @ nl # ''---'' @ r = nl # ''---'' @ r')
     \<or> (d @ u = d' \<and> nl # ''---'' @ r = u @ nl # ''---'' @ r')"
    by (auto simp: append_eq_append_conv2)
  then show ?thesis
  proof
    assume "d = d' @ u \<and> u @ nl # ''---'' @ r = nl # ''---'' @ r'"
    then show ?thesis using diff_boundary_half [of d d' u r r'] r' d by blast
  next
    assume "d @ u = d' \<and> nl # ''---'' @ r = u @ nl # ''---'' @ r'"
    then have "d' = d @ u" "u @ nl # ''---'' @ r' = nl # ''---'' @ r" by auto
    then show ?thesis using diff_boundary_half [of d' d u r' r] r d' by blast
  qed
qed

lemma segment_inj:
  assumes eq: "segment c @ canonical cs = segment c' @ canonical cs'"
    and p: "plain_change c" and p': "plain_change c'"
  shows "fingerprint_fields c = fingerprint_fields c' \<and> canonical cs = canonical cs'"
proof -
  from eq have 1:
    "or_empty (old_path c) @ nl # (''new_path:'' @ or_empty (new_path c) @ [nl] @ ''flags:'' @ flags_code c
        @ [nl] @ ''diff:'' @ [nl] @ or_empty (diff c) @ [nl] @ ''---'' @ canonical cs)
     = or_empty (old_path c') @ nl # (''new_path:'' @ or_empty (new_path c') @ [nl] @ ''flags:'' @ flags_code c'
        @ [nl] @ ''diff:'' @ [nl] @ or_empty (diff c') @ [nl] @ ''---'' @ canonical cs')"
    by (simp add: segment_eq)
  from split_at_newline [OF _ _ 1] p p' have o: "or_empty (old_path c) = or_empty (old_path c')"
    and 2: "or_empty (new_path c) @ nl # (''flags:'' @ flags_code c
        @ [nl] @ ''diff:'' @ [nl] @ or_empty (diff c) @ [nl] @ ''---'' @ canonical cs)
     = or_empty (new_path c') @ nl # (''flags:'' @ flags_code c'
        @ [nl] @ ''diff:'' @ [nl] @ or_empty (diff c') @ [nl] @ ''---'' @ canonical cs')"
    by (auto simp: plain_change_def)
  from split_at_newline [OF _ _ 2] p p' have n: "or_empty (new_path c) = or_empty (new_path c')"
    and 3: "flags_code c @ (nl # ''diff:'' @ nl # or_empty (diff c) @ nl # ''---'' @ canonical cs)
     = flags_code c' @ (nl # ''diff:'' @ nl # or_empty (diff c') @ nl # ''---'' @ canonical cs')"
    by (auto simp: plain_change_def)
  from 3 have f: "flags_code c = flags_code c'"
    and 4: "or_empty (diff c) @ nl # ''---'' @ canonical cs = or_empty (diff c') @ nl # ''---'' @ canonical cs'"
    by (simp_all add: append_eq_append_conv length_flags_code)
  from diff_boundary [OF 4 canonical_start canonical_start] p p'
  have "or_empty (diff c) = or_empty (diff c') \<and> canonical cs = canonical cs'"
    by (simp add: plain_change_def)
  with o n flags_code_inj [OF f] show ?thesis
    by (simp add: fingerprint_fields_def)
qed

lemma segment_not_empty: "segment c @ t \<noteq> []"
  by (simp add: segment_eq)

lemma canonical_inj:
  "list_all plain_change cs \<Longrightarrow> list_all plain_change cs' \<Longrightarrow> canonical cs = canonical cs'
   \<Longrightarrow> map fingerprint_fields cs = map fingerprint_fields cs'"
proof (induction cs arbitrary: cs')
  case Nil
  then show ?case by (cases cs') (simp_all add: canonical_def segment_eq)
next
  case (Cons c cs)
  show ?case
  proof (cases cs')
    case Nil
    with Cons.prems show ?thesis by (simp add: canonical_def segment_eq)
  next
    case (Cons c' ds)
    with Cons.prems have eq: "segment c @ canonical cs = segment c' @ canonical ds"
      and p: "plain_change c" "plain_change c'" "list_all plain_change cs" "list_all plain_change ds"
      by (simp_all add: canonical_def)
    from segment_inj [OF eq p(1,2)] Cons.IH [OF p(3,4)] show ?thesis
      by (simp add: Cons)
  qed
qed

lemma unat_byte: "k < 256 \<Longrightarrow> unat (of_nat k :: byte) = k"
  by (simp add: unat_of_nat)

lemma of_char_less_256: "(of_char c :: nat) < 256"
  by simp

lemma utf8_char_unat:
  "map unat (utf8_char c) =
     (if (of_char c :: nat) < 128 then [of_char c]
      else [192 + of_char c div 64, 128 + of_char c mod 64])"
proof (cases "(of_char c :: nat) < 128")
  case True
  then show ?thesis by (simp add: utf8_char_def unat_byte)
next
  case False
  have a: "(of_char c :: nat) < 256" by simp
  have b1: "unat (of_nat (192 + of_char c div 64) :: byte) = 192 + of_char c div 64"
    using a by (intro unat_byte) arith
  have b2: "unat (of_nat (128 + of_char c mod 64) :: byte) = 128 + of_char c mod 64"
    by (intro unat_byte) arith
  show ?thesis
    unfolding utf8_char_def Let_def by (simp only: False if_False list.map b1 b2)
qed

lemma utf8_char_inj:
  assumes "utf8_char c @ x = utf8_char c' @ y"
  shows "c = c' \<and> x = y"
proof -
  let ?n = "of_char c :: nat" and ?m = "of_char c' :: nat"
  from assms have "map unat (utf8_char c) @ map unat x = map unat (utf8_char c') @ map unat y"
    by (metis map_append)
  then have "?n = ?m \<or> (?n div 64 = ?m div 64 \<and> ?n mod 64 = ?m mod 64)"
    unfolding utf8_char_unat
    by (auto split: if_splits)
  then have "?n = ?m"
    by (metis div_mult_mod_eq)
  then have "c = c'" by simp
  with assms show ?thesis by simp
qed

lemma utf8_char_not_empty: "utf8_char c \<noteq> []"
  by (simp add: utf8_char_def Let_def)

lemma encode_utf8_inj: "encode_utf8 s = encode_utf8 t \<Longrightarrow> s = t"
proof (induction s arbitrary: t)
  case Nil
  then show ?case
    by (cases t) (simp_all add: encode_utf8_def utf8_char_not_empty)
next
  case (Cons c s)
  show ?case
  proof (cases t)
    case Nil
    with Cons.prems show ?thesis
      by (simp add: encode_utf8_def utf8_char_not_empty)
  next
    case (Cons d u)
    with Cons.prems have "utf8_char c @ encode_utf8 s = utf8_char d @ encode_utf8 u"
      by (simp add: encode_utf8_def)
    from utf8_char_inj [OF this] Cons.IH show ?thesis by (simp add: Cons)
  qed
qed

text \<open>
  Claim C1, for plain changes. Two lists of plain changes that differ in a path, a flag,
  a diff text, the number of changes or their order are fed to the hasher as different
  texts and different bytes, so their fingerprints differ unless SHA-256 collides on
  these two inputs.
\<close>

theorem canonical_injective_on_plain:
  assumes "list_all plain_change changes" and "list_all plain_change changes'"
    and "map fingerprint_fields changes \<noteq> map fingerprint_fields changes'"
  shows "canonical changes \<noteq> canonical changes'
    \<and> feed_changes hasher_new changes \<noteq> feed_changes hasher_new changes'
    \<and> (build_diff_hash changes \<noteq> build_diff_hash changes'
       \<or> sha256_collision (feed_changes hasher_new changes) (feed_changes hasher_new changes'))"
proof -
  from assms canonical_inj have c: "canonical changes \<noteq> canonical changes'" by blast
  then have f: "feed_changes hasher_new changes \<noteq> feed_changes hasher_new changes'"
    using encode_utf8_inj by (auto simp: feed_changes_eq hasher_new_def canonical_def)
  with c show ?thesis
    by (auto simp: sha256_collision_def build_diff_hash_def)
qed

theorem canonical_injective_on_plain_witness:
  "list_all plain_change [change_of ''a.py'' ''+x'']
   \<and> list_all plain_change [change_of ''a.py'' ''+y'']
   \<and> canonical [change_of ''a.py'' ''+x''] \<noteq> canonical [change_of ''a.py'' ''+y'']
   \<and> feed_changes hasher_new [change_of ''a.py'' ''+x''] \<noteq> feed_changes hasher_new [change_of ''a.py'' ''+y'']"
proof -
  have p: "list_all plain_change [change_of ''a.py'' ''+x'']" "list_all plain_change [change_of ''a.py'' ''+y'']"
    by (simp_all add: plain_change_def change_of_def or_empty_def nl_def record_boundary_def
        sublist_Cons_right prefix_Cons)
  have d: "map fingerprint_fields [change_of ''a.py'' ''+x''] \<noteq> map fingerprint_fields [change_of ''a.py'' ''+y'']"
    by (simp add: fingerprint_fields_def change_of_def or_empty_def)
  from canonical_injective_on_plain [OF p d] p show ?thesis by blast
qed

text \<open>
  Without the restriction the serialization is not injective: a single change whose
  diff text ends one segment and starts another is fed to the hasher as the same bytes
  as two changes, and the fingerprints are equal.
\<close>

theorem canonical_not_injective:
  "[change_of ''a'' (''+x'' @ [nl] @ ''---old_path:b'' @ [nl] @ ''new_path:b'' @ [nl] @ ''flags:---''
       @ [nl] @ ''diff:'' @ [nl] @ ''+y'')]
     \<noteq> [change_of ''a'' ''+x'', change_of ''b'' ''+y'']
   \<and> length [change_of ''a'' (''+x'' @ [nl] @ ''---old_path:b'' @ [nl] @ ''new_path:b'' @ [nl] @ ''flags:---''
       @ [nl] @ ''diff:'' @ [nl] @ ''+y'')]
     \<noteq> length [change_of ''a'' ''+x'', change_of ''b'' ''+y'']
   \<and> canonical [change_of ''a'' (''+x'' @ [nl] @ ''---old_path:b'' @ [nl] @ ''new_path:b'' @ [nl] @ ''flags:---''
       @ [nl] @ ''diff:'' @ [nl] @ ''+y'')]
     = canonical [change_of ''a'' ''+x'', change_of ''b'' ''+y'']
   \<and> build_diff_hash [change_of ''a'' (''+x'' @ [nl] @ ''---old_path:b'' @ [nl] @ ''new_path:b'' @ [nl] @ ''flags:---''
       @ [nl] @ ''diff:'' @ [nl] @ ''+y'')]
     = build_diff_hash [change_of ''a'' ''+x'', change_of ''b'' ''+y'']"
  by (simp add: build_diff_hash_eq canonical_def segment_eq change_of_def or_empty_def
      flags_code_def truthy_def)

section \<open>Properties of the json model\<close>

lemma of_char_digit_char: "n < 10 \<Longrightarrow> (of_char (digit_char n) :: nat) = 48 + n"
  by (simp add: digit_char_def)

lemma is_digit_digit_char: "n < 10 \<Longrightarrow> is_digit (digit_char n)"
  by (simp add: is_digit_def of_char_digit_char)

lemma digit_val_digit_char: "n < 10 \<Longrightarrow> digit_val (digit_char n) = n"
  by (simp add: digit_val_def of_char_digit_char)

lemma digit_char_zero: "n < 10 \<Longrightarrow> (digit_char n = CHR ''0'') = (n = 0)"
proof -
  assume "n < 10"
  then have "(of_char (digit_char n) :: nat) = 48 + n" by (rule of_char_digit_char)
  moreover have "(of_char CHR ''0'' :: nat) = 48" by simp
  ultimately show ?thesis by (metis add_cancel_right_right of_char_eq_iff digit_char_def)
qed

lemma digits_all: "list_all is_digit (digits_of n)"
  by (induction n rule: digits_of.induct) (subst digits_of.simps, simp add: is_digit_digit_char)

lemma digits_not_empty: "digits_of n \<noteq> []"
  by (subst digits_of.simps) simp

lemma nat_of_digits_snoc: "nat_of_digits (ds @ [c]) = 10 * nat_of_digits ds + digit_val c"
  by (simp add: nat_of_digits_def)

lemma nat_of_digits_of: "nat_of_digits (digits_of n) = n"
proof (induction n rule: digits_of.induct)
  case (1 n)
  show ?case
  proof (cases "n < 10")
    case True
    then show ?thesis
      by (subst digits_of.simps) (simp add: nat_of_digits_def digit_val_digit_char)
  next
    case False
    with 1 show ?thesis
      by (subst digits_of.simps) (simp add: nat_of_digits_snoc digit_val_digit_char)
  qed
qed

lemma hd_digits_of: "hd (digits_of n) = CHR ''0'' \<Longrightarrow> n = 0"
proof (induction n rule: digits_of.induct)
  case (1 n)
  show ?case
  proof (cases "n < 10")
    case True
    with 1(2) show ?thesis
      by (subst (asm) digits_of.simps) (simp add: digit_char_zero)
  next
    case False
    with 1(2) have "hd (digits_of (n div 10)) = CHR ''0''"
      by (subst (asm) digits_of.simps) (simp add: digits_not_empty)
    with 1(1) False have "n div 10 = 0" by simp
    with False show ?thesis by simp
  qed
qed

lemma digits_of_zero: "digits_of 0 = ''0''"
  using digit_char_zero [of 0] by (subst digits_of.simps) simp

lemma is_digit_simps [simp]:
  "\<not> is_digit CHR ''-''" "\<not> is_digit CHR '',''" "\<not> is_digit CHR '']''" "\<not> is_digit CHR ''}''"
  "\<not> is_digit CHR ''.''" "\<not> is_digit CHR ''e''" "\<not> is_digit CHR ''E''" "\<not> is_digit CHR ''+''"
  "is_digit CHR ''0''"
  by (simp_all add: is_digit_def)

lemma takeWhile_digits:
  "list_all is_digit ds \<Longrightarrow> rest = [] \<or> \<not> is_digit (hd rest) \<Longrightarrow>
     takeWhile is_digit (ds @ rest) = ds \<and> dropWhile is_digit (ds @ rest) = rest"
  by (induction ds) (cases rest; auto)+

lemma delim_not_digit: "delim rest \<Longrightarrow> rest = [] \<or> \<not> is_digit (hd rest)"
  by (auto simp: delim_def)

lemma scan_frac_delim: "delim rest \<Longrightarrow> scan_frac rest = ([], rest)"
  by (auto simp: scan_frac_def delim_def split: list.splits)

lemma scan_exp_delim: "delim rest \<Longrightarrow> scan_exp rest = ([], rest)"
  by (auto simp: scan_exp_def delim_def split: list.splits)

lemma scan_int_part_digits:
  assumes "delim rest"
  shows "scan_int_part (digits_of n @ rest) = Some (digits_of n, rest)"
proof (cases "n = 0")
  case True
  then show ?thesis by (simp add: digits_of_zero scan_int_part_def)
next
  case False
  obtain d ds where d: "digits_of n = d # ds" using digits_not_empty by (cases "digits_of n") auto
  with False hd_digits_of [of n] have d0: "d \<noteq> CHR ''0''" by auto
  from digits_all [of n] d have dd: "is_digit d" by simp
  then have dm: "d \<noteq> CHR ''-''" by auto
  from takeWhile_digits [OF digits_all delim_not_digit [OF assms], of n]
  show ?thesis
    using d0 dd dm by (simp add: scan_int_part_def d)
qed

lemma scan_int_part_neg:
  assumes "delim rest" and "n \<noteq> 0"
  shows "scan_int_part (CHR ''-'' # digits_of n @ rest) = Some (CHR ''-'' # digits_of n, rest)"
proof -
  obtain d ds where d: "digits_of n = d # ds" using digits_not_empty by (cases "digits_of n") auto
  with assms hd_digits_of [of n] have d0: "d \<noteq> CHR ''0''" by auto
  from digits_all [of n] d have dd: "is_digit d" by simp
  from takeWhile_digits [OF digits_all delim_not_digit [OF assms(1)], of n]
  show ?thesis
    using d0 dd by (simp add: scan_int_part_def d)
qed

lemma scan_number_int:
  assumes "delim rest"
  shows "scan_number (repr_int i @ rest) = Some (PInt i, rest)"
proof (cases "i < 0")
  case True
  then have n: "nat (- i) \<noteq> 0" by simp
  from True show ?thesis
    by (simp add: scan_number_def repr_int_def scan_int_part_neg [OF assms n]
        scan_frac_delim [OF assms] scan_exp_delim [OF assms] int_of_token_def nat_of_digits_of)
next
  case False
  obtain d ds where d: "digits_of (nat i) = d # ds"
    using digits_not_empty by (cases "digits_of (nat i)") auto
  from digits_all [of "nat i"] d have "is_digit d" by simp
  then have dm: "d \<noteq> CHR ''-''" by auto
  have "int_of_token (digits_of (nat i)) = int (nat_of_digits (digits_of (nat i)))"
    using dm by (simp add: int_of_token_def d)
  with False show ?thesis
    by (simp add: scan_number_def repr_int_def scan_int_part_digits [OF assms]
        scan_frac_delim [OF assms] scan_exp_delim [OF assms] nat_of_digits_of)
qed

lemma below_16: "m < 16 \<Longrightarrow> m \<in> {0, 1, 2, 3, 4, 5, 6, 7, 8, 9, 10, 11, 12, 13, 14, (15::nat)}"
  by (simp add: less_Suc_eq numeral_eq_Suc)

lemma hex_digit_nth: "m < 16 \<Longrightarrow> hex_val (''0123456789abcdef'' ! m) = Some m"
  by (drule below_16) (auto simp: hex_val_def)

lemma hex_val_hex_digit: "hex_val (hex_digit k) = Some (k mod 16)"
  by (simp add: hex_digit_def hex_digit_nth)

lemma hex4_escape:
  "n < 256 \<Longrightarrow> hex4 CHR ''0'' CHR ''0'' (hex_digit (n div 16)) (hex_digit n) = Some n"
proof -
  assume "n < 256"
  then have "n div 16 mod 16 = n div 16" by simp
  moreover have "hex_val CHR ''0'' = Some 0" by (simp add: hex_val_def)
  ultimately show ?thesis
    by (simp add: hex4_def hex_val_hex_digit)
qed

lemma of_char_is:
  "((of_char c :: nat) = 10) = (c = CHR 0x0A)"
  "((of_char c :: nat) = 13) = (c = CHR 0x0D)"
  "((of_char c :: nat) = 9) = (c = CHR 0x09)"
  "((of_char c :: nat) = 8) = (c = CHR 0x08)"
  "((of_char c :: nat) = 12) = (c = CHR 0x0C)"
proof -
  have "((of_char c :: nat) = of_char (CHR 0x0A)) = (c = CHR 0x0A)" by (rule of_char_eq_iff)
  then show "((of_char c :: nat) = 10) = (c = CHR 0x0A)" by simp
  have "((of_char c :: nat) = of_char (CHR 0x0D)) = (c = CHR 0x0D)" by (rule of_char_eq_iff)
  then show "((of_char c :: nat) = 13) = (c = CHR 0x0D)" by simp
  have "((of_char c :: nat) = of_char (CHR 0x09)) = (c = CHR 0x09)" by (rule of_char_eq_iff)
  then show "((of_char c :: nat) = 9) = (c = CHR 0x09)" by simp
  have "((of_char c :: nat) = of_char (CHR 0x08)) = (c = CHR 0x08)" by (rule of_char_eq_iff)
  then show "((of_char c :: nat) = 8) = (c = CHR 0x08)" by simp
  have "((of_char c :: nat) = of_char (CHR 0x0C)) = (c = CHR 0x0C)" by (rule of_char_eq_iff)
  then show "((of_char c :: nat) = 12) = (c = CHR 0x0C)" by simp
qed

lemma escape_char_cases:
  "escape_char c =
     (if c = dquote then [bslash, dquote]
      else if c = bslash then [bslash, bslash]
      else if c = CHR 0x0A then [bslash, CHR ''n'']
      else if c = CHR 0x0D then [bslash, CHR ''r'']
      else if c = CHR 0x09 then [bslash, CHR ''t'']
      else if c = CHR 0x08 then [bslash, CHR ''b'']
      else if c = CHR 0x0C then [bslash, CHR ''f'']
      else if 32 \<le> (of_char c :: nat) \<and> (of_char c :: nat) \<le> 126 then [c]
      else [bslash, CHR ''u'', CHR ''0'', CHR ''0'', hex_digit (of_char c div 16), hex_digit (of_char c)])"
  unfolding escape_char_def Let_def of_char_is ..

lemma scan_string_escape:
  "scan_string (escape_char c @ t) = cons_char c (scan_string t)"
proof -
  have q: "dquote \<noteq> bslash" "dquote \<noteq> CHR ''u''" "bslash \<noteq> CHR ''u''"
    by (simp_all add: dquote_def bslash_def)
  have u: "unescape dquote = Some dquote" "unescape bslash = Some bslash"
    "unescape CHR ''n'' = Some (CHR 0x0A)" "unescape CHR ''r'' = Some (CHR 0x0D)"
    "unescape CHR ''t'' = Some (CHR 0x09)" "unescape CHR ''b'' = Some (CHR 0x08)"
    "unescape CHR ''f'' = Some (CHR 0x0C)"
    by (simp_all add: unescape_def dquote_def bslash_def)
  have h: "hex4 CHR ''0'' CHR ''0'' (hex_digit (of_char c div 16)) (hex_digit (of_char c))
      = Some (of_char c)"
    by (rule hex4_escape) simp
  show ?thesis
  proof (cases "c = dquote")
    case True
    then show ?thesis using q u(1) by (simp add: escape_char_cases)
  next
    case c1: False
    show ?thesis
    proof (cases "c = bslash")
      case True
      then show ?thesis using q u(2) by (simp add: escape_char_cases)
    next
      case c2: False
      show ?thesis
      proof (cases "c = CHR 0x0A \<or> c = CHR 0x0D \<or> c = CHR 0x09 \<or> c = CHR 0x08 \<or> c = CHR 0x0C")
        case True
        then show ?thesis using q u(3-7) c1 c2
          by (elim disjE) (simp_all add: escape_char_cases)
      next
        case c3: False
        show ?thesis
        proof (cases "32 \<le> (of_char c :: nat) \<and> (of_char c :: nat) \<le> 126")
          case True
          then show ?thesis using c1 c2 c3 by (simp add: escape_char_cases)
        next
          case False
          have "escape_char c = [bslash, CHR ''u'', CHR ''0'', CHR ''0'', hex_digit (of_char c div 16), hex_digit (of_char c)]"
            using c1 c2 c3 False by (simp add: escape_char_cases)
          then show ?thesis using q h by simp
        qed
      qed
    qed
  qed
qed

lemma scan_string_encode:
  "scan_string (concat (map escape_char s) @ dquote # rest) = Some (s, rest)"
  by (induction s) (simp_all add: scan_string_escape cons_char_def)

lemma scan_once_str:
  "scan_once (Suc n) (encode_str s @ rest) = Some (PStr s, rest)"
  by (simp add: encode_str_def scan_string_encode)

lemma delim_num_stop: "delim rest \<Longrightarrow> num_stop rest"
  by (auto simp: delim_def num_stop_def)

lemma takeWhile_append_stop:
  "rest = [] \<or> \<not> is_digit (hd rest) \<Longrightarrow>
     takeWhile is_digit (xs @ rest) = takeWhile is_digit xs
     \<and> dropWhile is_digit (xs @ rest) = dropWhile is_digit xs @ rest"
  by (induction xs) (cases rest; auto)+

lemma scan_int_part_append:
  assumes "scan_int_part cs = Some (ip, r)" and "num_stop rest"
  shows "scan_int_part (cs @ rest) = Some (ip, r @ rest)"
proof -
  from assms(2) have st: "rest = [] \<or> \<not> is_digit (hd rest)" by (auto simp: num_stop_def)
  have ne: "cs \<noteq> []" using assms(1) by (auto simp: scan_int_part_def)
  show ?thesis
  proof (cases "hd cs = CHR ''-''")
    case True
    then obtain r0 where cs: "cs = CHR ''-'' # r0" using ne by (cases cs) auto
    with assms(1) have r0: "r0 \<noteq> []" by (auto simp: scan_int_part_def)
    then obtain d r1 where r0': "r0 = d # r1" by (cases r0) auto
    from assms(1) takeWhile_append_stop [OF st, of r0] show ?thesis
      by (auto simp: scan_int_part_def Let_def cs r0' split: if_splits)
  next
    case False
    then obtain d r1 where cs: "cs = d # r1" "d \<noteq> CHR ''-''" using ne by (cases cs) auto
    from assms(1) takeWhile_append_stop [OF st, of cs] show ?thesis
      by (auto simp: scan_int_part_def Let_def cs split: if_splits)
  qed
qed

lemma scan_frac_append:
  assumes "scan_frac cs = (fp, r)" and "num_stop rest"
  shows "scan_frac (cs @ rest) = (fp, r @ rest)"
proof -
  from assms(2) have st: "rest = [] \<or> \<not> is_digit (hd rest)" by (auto simp: num_stop_def)
  from assms(2) have dot: "rest = [] \<or> hd rest \<noteq> CHR ''.''" by (auto simp: num_stop_def)
  show ?thesis
  proof (cases cs)
    case Nil
    with assms(1) dot show ?thesis by (cases rest) (auto simp: scan_frac_def split: list.splits)
  next
    case (Cons p r0)
    show ?thesis
    proof (cases r0)
      case Nil
      with Cons assms st show ?thesis
        by (cases rest) (auto simp: scan_frac_def split: list.splits)
    next
      case (Cons d r1)
      with \<open>cs = p # r0\<close> assms(1) takeWhile_append_stop [OF st, of r1] show ?thesis
        by (auto simp: scan_frac_def split: if_splits)
    qed
  qed
qed

lemma scan_exp_append:
  assumes "scan_exp cs = (ep, r)" and "num_stop rest"
  shows "scan_exp (cs @ rest) = (ep, r @ rest)"
proof -
  from assms(2) have st: "rest = [] \<or> \<not> is_digit (hd rest)" by (auto simp: num_stop_def)
  from assms(2) have ns: "rest = [] \<or> (hd rest \<noteq> CHR ''e'' \<and> hd rest \<noteq> CHR ''E''
      \<and> hd rest \<noteq> CHR ''+'' \<and> hd rest \<noteq> CHR ''-'')"
    by (auto simp: num_stop_def)
  show ?thesis
  proof (cases cs)
    case Nil
    with assms(1) ns show ?thesis by (cases rest) (auto simp: scan_exp_def)
  next
    case c: (Cons e r0)
    show ?thesis
    proof (cases r0)
      case Nil
      with c assms(1) ns st show ?thesis
        by (cases rest) (auto simp: scan_exp_def Let_def)
    next
      case r: (Cons x r1)
      show ?thesis
      proof (cases r1)
        case Nil
        with c r assms(1) ns st show ?thesis
          by (cases rest) (auto simp: scan_exp_def Let_def split: if_splits)
      next
        case (Cons y r2)
        with c r assms(1) takeWhile_append_stop [OF st, of r1] takeWhile_append_stop [OF st, of r2]
        show ?thesis
          by (auto simp: scan_exp_def Let_def split: if_splits)
      qed
    qed
  qed
qed

lemma scan_number_append:
  assumes "scan_number cs = Some (v, r)" and "num_stop rest"
  shows "scan_number (cs @ rest) = Some (v, r @ rest)"
proof -
  from assms(1) obtain ip r0 where i: "scan_int_part cs = Some (ip, r0)"
    by (auto simp: scan_number_def split: option.splits)
  obtain fp r1 where f: "scan_frac r0 = (fp, r1)" by (cases "scan_frac r0")
  obtain ep r2 where e: "scan_exp r1 = (ep, r2)" by (cases "scan_exp r1")
  from assms(1) show ?thesis
    by (auto simp: scan_number_def i f e scan_int_part_append [OF i assms(2)]
        scan_frac_append [OF f assms(2)] scan_exp_append [OF e assms(2)] split: if_splits)
qed

lemma scan_number_float:
  "float_token t \<Longrightarrow> delim rest \<Longrightarrow> scan_number (t @ rest) = Some (PFloat (FNum t), rest)"
  using scan_number_append [of t "PFloat (FNum t)" "[]" rest] delim_num_stop
  by (simp add: float_token_def)

lemma scan_number_start:
  "scan_number cs = Some x \<Longrightarrow> cs \<noteq> [] \<and> (hd cs = CHR ''-'' \<or> is_digit (hd cs))"
  by (cases cs) (auto simp: scan_number_def scan_int_part_def Let_def split: option.splits if_splits)

lemma skip_ws_start: "starts_value t \<Longrightarrow> skip_ws (t @ r) = t @ r"
  by (cases t) (simp_all add: starts_value_def skip_ws_def)

lemma skip_ws_space: "skip_ws (CHR '' '' # r) = skip_ws r"
  by (simp add: skip_ws_def is_ws_def)

lemma skip_ws_delims [simp]:
  "skip_ws (CHR '','' # r) = CHR '','' # r"
  "skip_ws (CHR '']'' # r) = CHR '']'' # r"
  "skip_ws (CHR ''}'' # r) = CHR ''}'' # r"
  "skip_ws (CHR '':'' # r) = CHR '':'' # r"
  "skip_ws (dquote # r) = dquote # r"
  "skip_ws [] = []"
  by (simp_all add: skip_ws_def is_ws_def dquote_def)

lemma delim_simps [simp]:
  "delim []" "delim (CHR '','' # r)" "delim (CHR '']'' # r)" "delim (CHR ''}'' # r)"
  by (simp_all add: delim_def)

lemma join_Cons: "join sep (t # ts) = (if ts = [] then t else t @ sep @ join sep ts)"
  by (cases ts) simp_all

lemma dict_set_fresh: "k \<notin> fst ` set acc \<Longrightarrow> dict_set acc k v = acc @ [(k, v)]"
  by (induction acc) auto

lemma scan_once_number:
  assumes "scan_number cs = Some x"
  shows "scan_once (Suc n) cs = Some x"
proof -
  from scan_number_start [OF assms] obtain c r where cs: "cs = c # r"
    and c: "c = CHR ''-'' \<or> is_digit c"
    by (cases cs) auto
  from c have "c \<noteq> dquote" "c \<noteq> CHR ''{''" "c \<noteq> CHR ''[''" "c \<noteq> CHR ''n''" "c \<noteq> CHR ''t''"
    "c \<noteq> CHR ''f''"
    by (auto simp: is_digit_def dquote_def)
  with assms show ?thesis
    by (simp add: cs)
qed

lemma scan_once_literals:
  "scan_once (Suc n) (''null'' @ rest) = Some (PNone, rest)"
  "scan_once (Suc n) (''true'' @ rest) = Some (PBool True, rest)"
  "scan_once (Suc n) (''false'' @ rest) = Some (PBool False, rest)"
  "scan_once (Suc n) (''NaN'' @ rest) = Some (PFloat FNaN, rest)"
  "scan_once (Suc n) (''Infinity'' @ rest) = Some (PFloat FInf, rest)"
  "scan_once (Suc n) (''-Infinity'' @ rest) = Some (PFloat FNegInf, rest)"
  by (simp_all add: dquote_def scan_number_def scan_int_part_def is_digit_def)

lemma starts_value_repr_int: "starts_value (repr_int i)"
proof -
  obtain d ds where d: "digits_of (nat \<bar>i\<bar>) = d # ds"
    using digits_not_empty by (cases "digits_of (nat \<bar>i\<bar>)") auto
  from digits_all [of "nat \<bar>i\<bar>"] d have "is_digit d" by simp
  then have "\<not> is_ws d \<and> d \<noteq> CHR '']'' \<and> d \<noteq> CHR ''}''"
    by (auto simp: is_digit_def is_ws_def)
  then show ?thesis
    using d by (cases "i < 0") (auto simp: starts_value_def repr_int_def is_ws_def abs_if)
qed

lemma starts_value_float: "float_token t \<Longrightarrow> starts_value t"
proof -
  assume "float_token t"
  then have "t \<noteq> [] \<and> (hd t = CHR ''-'' \<or> is_digit (hd t))"
    using scan_number_start by (auto simp: float_token_def)
  then show ?thesis
    by (auto simp: starts_value_def is_ws_def is_digit_def)
qed

lemma repr_int_not_empty: "repr_int i \<noteq> []"
  using starts_value_repr_int by (auto simp: starts_value_def)

lemma scan_once_leaf:
  "delim rest \<Longrightarrow> scan_once (Suc n) (repr_int i @ rest) = Some (PInt i, rest)"
  "float_token t \<Longrightarrow> delim rest \<Longrightarrow> scan_once (Suc n) (t @ rest) = Some (PFloat (FNum t), rest)"
  by (rule scan_once_number, rule scan_number_int, assumption)
     (rule scan_once_number, rule scan_number_float, assumption+)

lemma starts_value_leaf:
  "starts_value ''null''" "starts_value ''true''" "starts_value ''false''" "starts_value ''NaN''"
  "starts_value ''Infinity''" "starts_value ''-Infinity''" "starts_value (encode_str s)"
  "starts_value (CHR ''['' # x)" "starts_value (CHR ''{'' # x)"
  by (simp_all add: starts_value_def is_ws_def encode_str_def dquote_def)

lemma starts_value_append: "starts_value t \<Longrightarrow> starts_value (t @ x)"
  by (cases t) (simp_all add: starts_value_def)

lemma starts_value_Cons: "starts_value t \<Longrightarrow> \<exists>c r. t = c # r \<and> \<not> is_ws c \<and> c \<noteq> CHR '']'' \<and> c \<noteq> CHR ''}''"
  by (cases t) (simp_all add: starts_value_def)

lemma length_encode_str: "1 \<le> length (encode_str s)"
  by (simp add: encode_str_def)

lemma scan_once_empty:
  "scan_once (Suc n) (''[]'' @ rest) = Some (PList [], rest)"
  "scan_once (Suc n) (''{}'' @ rest) = Some (PDict [], rest)"
  by (simp_all add: dquote_def)

lemma scan_once_open_array:
  assumes "starts_value j"
  shows "scan_once (Suc n) (CHR ''['' # j @ r) = scan_array n [] (j @ r)"
proof -
  from starts_value_Cons [OF assms] obtain c x where j: "j = c # x" and c: "\<not> is_ws c" "c \<noteq> CHR '']''"
    by blast
  then show ?thesis by (simp add: dquote_def skip_ws_def)
qed

lemma scan_once_open_object:
  assumes "starts_value j"
  shows "scan_once (Suc n) (CHR ''{'' # j @ r) = scan_object n [] (j @ r)"
proof -
  from starts_value_Cons [OF assms] obtain c x where j: "j = c # x" and c: "\<not> is_ws c" "c \<noteq> CHR ''}''"
    by blast
  then show ?thesis by (simp add: dquote_def skip_ws_def)
qed

lemma scan_array_last:
  assumes "scan_once k (t @ CHR '']'' # rest) = Some (v, CHR '']'' # rest)"
  shows "scan_array (Suc k) acc (t @ CHR '']'' # rest) = Some (PList (acc @ [v]), rest)"
  using assms by simp

lemma scan_array_more:
  assumes "scan_once k (t @ '', '' @ j @ r) = Some (v, '', '' @ j @ r)" and "starts_value j"
  shows "scan_array (Suc k) acc (t @ '', '' @ j @ r) = scan_array k (acc @ [v]) (j @ r)"
  using assms by (simp add: skip_ws_space skip_ws_start)

lemma scan_object_key:
  "scan_object (Suc k) acc (encode_str key @ '': '' @ t @ r) =
     (case scan_once k (skip_ws (CHR '' '' # t @ r)) of
        None \<Rightarrow> None
      | Some (v, r3) \<Rightarrow>
          (case skip_ws r3 of
             [] \<Rightarrow> None
           | d # r4 \<Rightarrow>
               if d = CHR ''}'' then Some (PDict (dict_set acc key v), r4)
               else if d = CHR '','' then scan_object k (dict_set acc key v) (skip_ws r4)
               else None))"
  by (simp add: encode_str_def scan_string_encode)

lemma scan_object_last:
  assumes "scan_once k (t @ CHR ''}'' # rest) = Some (v, CHR ''}'' # rest)" and "starts_value t"
    and "key \<notin> fst ` set acc"
  shows "scan_object (Suc k) acc (encode_str key @ '': '' @ t @ CHR ''}'' # rest)
    = Some (PDict (acc @ [(key, v)]), rest)"
  using assms by (subst scan_object_key) (simp add: skip_ws_space skip_ws_start dict_set_fresh)

lemma scan_object_more:
  assumes "scan_once k (t @ '', '' @ j @ r) = Some (v, '', '' @ j @ r)" and "starts_value t"
    and "starts_value j" and "key \<notin> fst ` set acc"
  shows "scan_object (Suc k) acc (encode_str key @ '': '' @ t @ '', '' @ j @ r)
    = scan_object k (acc @ [(key, v)]) (j @ r)"
  using assms by (subst scan_object_key) (simp add: skip_ws_space skip_ws_start dict_set_fresh)

declare scan_once.simps [simp del] scan_array.simps [simp del] scan_object.simps [simp del]

lemma json_roundtrip_value:
  "json_safe v \<Longrightarrow>
     (\<exists>t. encode_val v = Some t \<and> starts_value t \<and> fuel v \<le> length t
        \<and> (\<forall>n rest. fuel v \<le> n \<longrightarrow> delim rest \<longrightarrow> scan_once n (t @ rest) = Some (v, rest)))"
  and json_roundtrip_list:
  "json_safe_list vs \<Longrightarrow>
     (\<exists>ts. encode_vals vs = Some ts \<and> length ts = length vs
        \<and> (vs \<noteq> [] \<longrightarrow>
             starts_value (join '', '' ts) \<and> fuel_list vs \<le> Suc (length (join '', '' ts))
             \<and> (\<forall>n acc rest. fuel_list vs \<le> n \<longrightarrow>
                   scan_array n acc (join '', '' ts @ CHR '']'' # rest) = Some (PList (acc @ vs), rest))))"
  and json_roundtrip_items:
  "json_safe_items kvs \<Longrightarrow> distinct (map fst kvs) \<Longrightarrow>
     (\<exists>ts. encode_items kvs = Some ts \<and> length ts = length kvs
        \<and> (kvs \<noteq> [] \<longrightarrow>
             starts_value (join '', '' ts) \<and> fuel_items kvs \<le> Suc (length (join '', '' ts))
             \<and> (\<forall>n acc rest. fuel_items kvs \<le> n \<longrightarrow> fst ` set acc \<inter> fst ` set kvs = {} \<longrightarrow>
                   scan_object n acc (join '', '' ts @ CHR ''}'' # rest) = Some (PDict (acc @ kvs), rest))))"
proof (induction v and vs and kvs rule: encode_val_encode_vals_encode_items.induct)
  case 1
  have "scan_once n (''null'' @ rest) = Some (PNone, rest)" if "1 \<le> n" for n rest
    using that scan_once_literals(1) by (cases n) simp_all
  then show ?case by (simp add: starts_value_leaf)
next
  case (2 b)
  have "scan_once n ((if b then ''true'' else ''false'') @ rest) = Some (PBool b, rest)"
    if "1 \<le> n" for n rest
    using that scan_once_literals(2,3) by (cases n; cases b) simp_all
  then show ?case by (simp add: starts_value_leaf)
next
  case (3 i)
  have "scan_once n (repr_int i @ rest) = Some (PInt i, rest)" if "1 \<le> n" "delim rest" for n rest
    using that scan_once_leaf(1) by (cases n) simp_all
  moreover have "1 \<le> length (repr_int i)"
    using repr_int_not_empty [of i] by (cases "repr_int i") simp_all
  ultimately show ?case by (simp add: starts_value_repr_int)
next
  case (4 x)
  show ?case
  proof (cases x)
    case FNaN
    have "scan_once n (''NaN'' @ rest) = Some (PFloat FNaN, rest)" if "1 \<le> n" for n rest
      using that scan_once_literals(4) by (cases n) simp_all
    then show ?thesis by (simp add: FNaN repr_float_def starts_value_leaf)
  next
    case FInf
    have "scan_once n (''Infinity'' @ rest) = Some (PFloat FInf, rest)" if "1 \<le> n" for n rest
      using that scan_once_literals(5) by (cases n) simp_all
    then show ?thesis by (simp add: FInf repr_float_def starts_value_leaf)
  next
    case FNegInf
    have "scan_once n (''-Infinity'' @ rest) = Some (PFloat FNegInf, rest)" if "1 \<le> n" for n rest
      using that scan_once_literals(6) by (cases n) simp_all
    then show ?thesis by (simp add: FNegInf repr_float_def starts_value_leaf)
  next
    case (FNum t)
    with 4 have ft: "float_token t" by simp
    have "scan_once n (t @ rest) = Some (PFloat (FNum t), rest)" if "1 \<le> n" "delim rest" for n rest
      using that scan_once_leaf(2) [OF ft] by (cases n) simp_all
    moreover have "1 \<le> length t"
      using starts_value_float [OF ft] by (cases t) (simp_all add: starts_value_def)
    ultimately show ?thesis by (simp add: FNum repr_float_def starts_value_float [OF ft])
  qed
next
  case (5 s)
  have "scan_once n (encode_str s @ rest) = Some (PStr s, rest)" if "1 \<le> n" for n rest
    using that scan_once_str by (cases n) simp_all
  then show ?case using length_encode_str [of s] by (simp add: starts_value_leaf)
next
  case (6 vs)
  then obtain ts where ts: "encode_vals vs = Some ts" "length ts = length vs"
    and ne: "vs \<noteq> [] \<Longrightarrow> starts_value (join '', '' ts) \<and> fuel_list vs \<le> Suc (length (join '', '' ts))
             \<and> (\<forall>n acc rest. fuel_list vs \<le> n \<longrightarrow>
                   scan_array n acc (join '', '' ts @ CHR '']'' # rest) = Some (PList (acc @ vs), rest))"
    by auto
  show ?case
  proof (cases "vs = []")
    case True
    with ts have "ts = []" by simp
    moreover have "scan_once n (''[]'' @ rest) = Some (PList [], rest)" if "Suc 0 \<le> n" for n rest
      using that scan_once_empty(1) by (cases n) simp_all
    ultimately show ?thesis using ts True by (simp add: starts_value_leaf)
  next
    case False
    note n = ne [OF False]
    have "scan_once k (CHR ''['' # join '', '' ts @ CHR '']'' # rest) = Some (PList vs, rest)"
      if "Suc (fuel_list vs) \<le> k" for k rest
    proof -
      from that obtain m where m: "k = Suc m" "fuel_list vs \<le> m" by (cases k) auto
      with n scan_once_open_array [of "join '', '' ts" m "CHR '']'' # rest"] show ?thesis
        by simp
    qed
    with n ts show ?thesis by (simp add: starts_value_leaf)
  qed
next
  case (7 kvs)
  then obtain ts where ts: "encode_items kvs = Some ts" "length ts = length kvs"
    and ne: "kvs \<noteq> [] \<Longrightarrow> starts_value (join '', '' ts) \<and> fuel_items kvs \<le> Suc (length (join '', '' ts))
             \<and> (\<forall>n acc rest. fuel_items kvs \<le> n \<longrightarrow> fst ` set acc \<inter> fst ` set kvs = {} \<longrightarrow>
                   scan_object n acc (join '', '' ts @ CHR ''}'' # rest) = Some (PDict (acc @ kvs), rest))"
    by auto
  show ?case
  proof (cases "kvs = []")
    case True
    with ts have "ts = []" by simp
    moreover have "scan_once n (''{}'' @ rest) = Some (PDict [], rest)" if "Suc 0 \<le> n" for n rest
      using that scan_once_empty(2) by (cases n) simp_all
    ultimately show ?thesis using ts True by (simp add: starts_value_leaf)
  next
    case False
    note n = ne [OF False]
    have "scan_once k (CHR ''{'' # join '', '' ts @ CHR ''}'' # rest) = Some (PDict kvs, rest)"
      if "Suc (fuel_items kvs) \<le> k" for k rest
    proof -
      from that obtain m where m: "k = Suc m" "fuel_items kvs \<le> m" by (cases k) auto
      with n scan_once_open_object [of "join '', '' ts" m "CHR ''}'' # rest"] show ?thesis
        by simp
    qed
    with n ts show ?thesis by (simp add: starts_value_leaf)
  qed
next
  case 8
  then show ?case by simp
next
  case 9
  show ?case by simp
next
  case (10 v vs)
  from 10(3) have sv: "json_safe v" and svs: "json_safe_list vs" by simp_all
  from 10(1) [OF sv] obtain t where t: "encode_val v = Some t" "starts_value t" "fuel v \<le> length t"
    and sc: "\<And>n rest. fuel v \<le> n \<Longrightarrow> delim rest \<Longrightarrow> scan_once n (t @ rest) = Some (v, rest)"
    by blast
  from 10(2) [OF t(1) svs] obtain ts where ts: "encode_vals vs = Some ts" "length ts = length vs"
    and ne: "vs \<noteq> [] \<Longrightarrow> starts_value (join '', '' ts) \<and> fuel_list vs \<le> Suc (length (join '', '' ts))
             \<and> (\<forall>n acc rest. fuel_list vs \<le> n \<longrightarrow>
                   scan_array n acc (join '', '' ts @ CHR '']'' # rest) = Some (PList (acc @ vs), rest))"
    by auto
  have enc: "encode_vals (v # vs) = Some (t # ts)" by (simp add: t ts)
  show ?case
  proof (cases "vs = []")
    case True
    with ts have e: "ts = []" by simp
    have "scan_array n acc (t @ CHR '']'' # rest) = Some (PList (acc @ [v]), rest)"
      if "Suc (fuel v) \<le> n" for n acc rest
    proof -
      from that obtain k where k: "n = Suc k" "fuel v \<le> k" by (cases n) auto
      from sc [OF k(2), of "CHR '']'' # rest"] show ?thesis
        unfolding k(1) by (intro scan_array_last) simp
    qed
    with t ts show ?thesis by (simp add: e True)
  next
    case False
    note n = ne [OF False]
    from False ts have tne: "ts \<noteq> []" by auto
    have j: "join '', '' (t # ts) = t @ '', '' @ join '', '' ts"
      using tne by (simp add: join_Cons)
    have "scan_array n acc (t @ '', '' @ join '', '' ts @ CHR '']'' # rest) = Some (PList (acc @ v # vs), rest)"
      if "Suc (max (fuel v) (fuel_list vs)) \<le> n" for n acc rest
    proof -
      from that obtain k where k: "n = Suc k" "fuel v \<le> k" "fuel_list vs \<le> k"
        by (cases n) auto
      have "scan_once k (t @ '', '' @ join '', '' ts @ CHR '']'' # rest)
          = Some (v, '', '' @ join '', '' ts @ CHR '']'' # rest)"
        by (rule sc [OF k(2)]) simp
      from scan_array_more [OF this, of acc] n k(3) show ?thesis
        unfolding k(1) by simp
    qed
    moreover have "fuel_list (v # vs) \<le> Suc (length (join '', '' (t # ts)))"
      using t(3) n by (simp add: j)
    ultimately show ?thesis
      using t(1,2) ts by (simp add: j starts_value_append)
  qed
next
  case 11
  show ?case by simp
next
  case (12 kv kvs)
  obtain key v where kv: "kv = (key, v)" by (cases kv)
  from 12(3) have sv: "json_safe v" and svs: "json_safe_items kvs" by (simp_all add: kv)
  from 12(4) have d: "key \<notin> fst ` set kvs" "distinct (map fst kvs)" by (simp_all add: kv)
  from 12(1) sv obtain t where t: "encode_val v = Some t" "starts_value t" "fuel v \<le> length t"
    and sc: "\<And>n rest. fuel v \<le> n \<Longrightarrow> delim rest \<Longrightarrow> scan_once n (t @ rest) = Some (v, rest)"
    unfolding kv by auto
  from 12(2) [of t] t(1) svs d(2) obtain ts where ts: "encode_items kvs = Some ts" "length ts = length kvs"
    and ne: "kvs \<noteq> [] \<Longrightarrow> starts_value (join '', '' ts) \<and> fuel_items kvs \<le> Suc (length (join '', '' ts))
             \<and> (\<forall>n acc rest. fuel_items kvs \<le> n \<longrightarrow> fst ` set acc \<inter> fst ` set kvs = {} \<longrightarrow>
                   scan_object n acc (join '', '' ts @ CHR ''}'' # rest) = Some (PDict (acc @ kvs), rest))"
    unfolding kv by auto
  let ?item = "encode_str key @ '': '' @ t"
  have enc: "encode_items (kv # kvs) = Some (?item # ts)" by (simp add: t ts kv)
  have si: "starts_value (?item @ x)" for x
    using starts_value_leaf(7) [of key] by (simp add: starts_value_append)
  show ?case
  proof (cases "kvs = []")
    case True
    with ts have e: "ts = []" by simp
    have "scan_object n acc (?item @ CHR ''}'' # rest) = Some (PDict (acc @ [(key, v)]), rest)"
      if "Suc (fuel v) \<le> n" "key \<notin> fst ` set acc" for n acc rest
    proof -
      from that obtain k where k: "n = Suc k" "fuel v \<le> k" by (cases n) auto
      from sc [OF k(2), of "CHR ''}'' # rest"]
      have "scan_once k (t @ CHR ''}'' # rest) = Some (v, CHR ''}'' # rest)" by simp
      from scan_object_last [OF this t(2) that(2)] show ?thesis
        unfolding k(1) by simp
    qed
    moreover have "Suc (fuel v) \<le> Suc (length ?item)"
      using t(3) by simp
    ultimately show ?thesis
      using si [of "[]"] t(1) ts by (simp add: e True kv)
  next
    case False
    note n = ne [OF False]
    from False ts have tne: "ts \<noteq> []" by auto
    have j: "join '', '' (?item # ts) = ?item @ '', '' @ join '', '' ts"
      using tne by (simp add: join_Cons)
    have "scan_object n acc (?item @ '', '' @ join '', '' ts @ CHR ''}'' # rest)
        = Some (PDict (acc @ (key, v) # kvs), rest)"
      if "Suc (max (fuel v) (fuel_items kvs)) \<le> n" "key \<notin> fst ` set acc"
        "fst ` set acc \<inter> fst ` set kvs = {}" for n acc rest
    proof -
      from that obtain k where k: "n = Suc k" "fuel v \<le> k" "fuel_items kvs \<le> k"
        by (cases n) auto
      have 1: "scan_once k (t @ '', '' @ join '', '' ts @ CHR ''}'' # rest)
          = Some (v, '', '' @ join '', '' ts @ CHR ''}'' # rest)"
        by (rule sc [OF k(2)]) simp
      have 2: "fst ` set (acc @ [(key, v)]) \<inter> fst ` set kvs = {}"
        using that(3) d(1) by auto
      from n k(3) 2 have "scan_object k (acc @ [(key, v)]) (join '', '' ts @ CHR ''}'' # rest)
          = Some (PDict ((acc @ [(key, v)]) @ kvs), rest)"
        by blast
      with scan_object_more [OF 1 t(2) _ that(2)] n show ?thesis
        unfolding k(1) by simp
    qed
    moreover have "fuel_items (kv # kvs) \<le> Suc (length (join '', '' (?item # ts)))"
      using t(3) n tne by (simp add: join_Cons kv)
    ultimately show ?thesis
      using si [of "'', '' @ join '', '' ts"] t(1) ts tne by (simp add: join_Cons kv)
  qed
qed

lemma json_roundtrip:
  assumes "json_safe v"
  shows "encode_val v \<noteq> None \<and> json_loads (the (encode_val v)) = Inr v"
proof -
  from json_roundtrip_value [OF assms] obtain t where t: "encode_val v = Some t" "starts_value t"
    "fuel v \<le> length t"
    and sc: "\<And>n rest. fuel v \<le> n \<Longrightarrow> delim rest \<Longrightarrow> scan_once n (t @ rest) = Some (v, rest)"
    by blast
  from sc [of "Suc (2 * length t)" "[]"] t(3) have "scan_once (Suc (2 * length t)) t = Some (v, [])"
    by simp
  moreover have "skip_ws t = t" using skip_ws_start [OF t(2), of "[]"] by simp
  ultimately show ?thesis
    by (simp add: t(1) json_loads_def)
qed

lemma field_ok_safe: "field_ok k v \<Longrightarrow> json_safe v"
  by (cases v) (auto simp: field_ok_def split: if_splits pyfloat.splits)

lemma fields_safe: "list_all (\<lambda>kv. field_ok (fst kv) (snd kv)) kvs \<Longrightarrow> json_safe_items kvs"
  by (induction kvs) (auto dest: field_ok_safe)

lemma review_result_safe: "is_review_result v \<Longrightarrow> json_safe v"
  by (cases v) (auto simp: is_review_result_def dest: fields_safe)

text \<open>
  The bound on nested calls is never what makes the scanner fail. Every successful scan
  reads at least one character, so with the bound above twice the length of the text
  every nested call finds it above its own, shorter text; any two such bounds give the
  same result.
\<close>

lemma skip_ws_length: "length (skip_ws cs) \<le> length cs"
  by (simp add: skip_ws_def length_dropWhile_le)

lemma skip_ws_Cons_length: "skip_ws r = d # r1 \<Longrightarrow> length r1 < length r"
  using skip_ws_length [of r] by simp

lemma cons_char_length:
  "cons_char c x = Some (s, r1) \<Longrightarrow> \<exists>s'. x = Some (s', r1)"
  by (cases x) (auto simp: cons_char_def)

lemma scan_string_consumes: "scan_string r = Some (s, r1) \<Longrightarrow> length r1 < length r"
proof (induction r arbitrary: s rule: length_induct)
  case (1 xs)
  then have ih: "\<And>ys s'. length ys < length xs \<Longrightarrow> scan_string ys = Some (s', r1) \<Longrightarrow> length r1 < length ys"
    by blast
  from 1(2) obtain c r where xs: "xs = c # r" by (cases xs) auto
  note a = 1(2) [unfolded xs]
  show ?case
  proof (cases "c = dquote")
    case True
    with a show ?thesis by (simp add: xs)
  next
    case nq: False
    show ?thesis
    proof (cases "c = bslash")
      case True
      show ?thesis
      proof (cases r)
        case Nil
        with a nq True show ?thesis by simp
      next
        case (Cons e r1')
        show ?thesis
        proof (cases "e = CHR ''u''")
          case u: True
          from a nq True Cons u obtain h1 h2 h3 h4 r2 n where
            r: "r1' = h1 # h2 # h3 # h4 # r2" and h: "hex4 h1 h2 h3 h4 = Some n" and n: "n < 256"
            and c: "cons_char (char_of n) (scan_string r2) = Some (s, r1)"
            by (auto split: list.splits option.splits if_splits)
          from cons_char_length [OF c] obtain s' where "scan_string r2 = Some (s', r1)" by blast
          from ih [OF _ this] show ?thesis
            by (simp add: xs Cons r)
        next
          case nu: False
          from a nq True Cons nu obtain x where x: "unescape e = Some x"
            and c: "cons_char x (scan_string r1') = Some (s, r1)"
            by (auto split: option.splits)
          from cons_char_length [OF c] obtain s' where "scan_string r1' = Some (s', r1)" by blast
          from ih [OF _ this] show ?thesis
            by (simp add: xs Cons)
        qed
      qed
    next
      case nb: False
      from a nq nb have c: "cons_char c (scan_string r) = Some (s, r1)"
        by (auto split: if_splits)
      from cons_char_length [OF c] obtain s' where "scan_string r = Some (s', r1)" by blast
      from ih [OF _ this] show ?thesis by (simp add: xs)
    qed
  qed
qed

lemma scan_int_part_consumes: "scan_int_part cs = Some (ip, r) \<Longrightarrow> length r < length cs"
proof -
  assume a: "scan_int_part cs = Some (ip, r)"
  have d: "length (dropWhile is_digit xs) \<le> length xs" for xs
    by (rule length_dropWhile_le)
  show ?thesis
  proof (cases cs)
    case Nil
    with a show ?thesis by (simp add: scan_int_part_def)
  next
    case (Cons c r0)
    show ?thesis
    proof (cases "c = CHR ''-''")
      case True
      with a Cons d [of "tl r0"] show ?thesis
        by (cases r0) (auto simp: scan_int_part_def Let_def le_imp_less_Suc split: if_splits)
    next
      case False
      with a Cons d [of r0] show ?thesis
        by (auto simp: scan_int_part_def Let_def le_imp_less_Suc split: if_splits)
    qed
  qed
qed

lemma scan_frac_length: "scan_frac cs = (fp, r) \<Longrightarrow> length r \<le> length cs"
proof -
  assume a: "scan_frac cs = (fp, r)"
  have d: "length (dropWhile is_digit xs) \<le> length xs" for xs
    by (rule length_dropWhile_le)
  from a show ?thesis
    using d [of "tl (tl cs)"]
    by (cases cs; cases "tl cs") (auto simp: scan_frac_def split: if_splits)
qed

lemma scan_exp_length: "scan_exp cs = (ep, r) \<Longrightarrow> length r \<le> length cs"
proof -
  assume a: "scan_exp cs = (ep, r)"
  have d: "length (dropWhile is_digit xs) \<le> length xs" for xs
    by (rule length_dropWhile_le)
  from a show ?thesis
    using d [of "tl cs"] d [of "tl (tl cs)"]
    by (cases cs; cases "tl cs") (auto simp: scan_exp_def Let_def split: if_splits)
qed

lemma scan_number_consumes: "scan_number cs = Some (v, r) \<Longrightarrow> length r < length cs"
proof -
  assume a: "scan_number cs = Some (v, r)"
  then obtain ip r0 where i: "scan_int_part cs = Some (ip, r0)"
    by (auto simp: scan_number_def split: option.splits)
  obtain fp r1 where f: "scan_frac r0 = (fp, r1)" by (cases "scan_frac r0")
  obtain ep r2 where e: "scan_exp r1 = (ep, r2)" by (cases "scan_exp r1")
  from a have "r = r2" by (auto simp: scan_number_def i f e split: if_splits)
  with scan_int_part_consumes [OF i] scan_frac_length [OF f] scan_exp_length [OF e]
  show ?thesis by simp
qed

lemma literal_consumes:
  "take n cs = x \<Longrightarrow> x \<noteq> [] \<Longrightarrow> 0 < n \<Longrightarrow> length (drop n cs) < length cs"
  by (cases cs) auto

lemma scan_consumes:
  "(\<forall>cs v r. scan_once n cs = Some (v, r) \<longrightarrow> length r < length cs)
   \<and> (\<forall>acc cs v r. scan_array n acc cs = Some (v, r) \<longrightarrow> length r < length cs)
   \<and> (\<forall>acc cs v r. scan_object n acc cs = Some (v, r) \<longrightarrow> length r < length cs)"
proof (induction n)
  case 0
  show ?case by (simp add: scan_once.simps scan_array.simps scan_object.simps)
next
  case (Suc n)
  then have io: "\<And>cs v r. scan_once n cs = Some (v, r) \<Longrightarrow> length r < length cs"
    and ia: "\<And>acc cs v r. scan_array n acc cs = Some (v, r) \<Longrightarrow> length r < length cs"
    and ib: "\<And>acc cs v r. scan_object n acc cs = Some (v, r) \<Longrightarrow> length r < length cs"
    by blast+
  have once: "length r < length cs" if a: "scan_once (Suc n) cs = Some (v, r)" for cs v r
  proof (cases cs)
    case Nil
    with a show ?thesis by (simp add: scan_once.simps)
  next
    case (Cons c r0)
    consider (str) "c = dquote" | (obj) "c \<noteq> dquote" "c = CHR ''{''"
      | (arr) "c \<noteq> dquote" "c \<noteq> CHR ''{''" "c = CHR ''[''"
      | (lit) "c \<noteq> dquote" "c \<noteq> CHR ''{''" "c \<noteq> CHR ''[''"
      by blast
    then show ?thesis
    proof cases
      case str
      with a Cons obtain s where "scan_string r0 = Some (s, r)"
        by (auto simp: scan_once.simps split: option.splits)
      from scan_string_consumes [OF this] show ?thesis by (simp add: Cons)
    next
      case obj
      with a Cons obtain d r1 where d: "skip_ws r0 = d # r1"
        and x: "(d = CHR ''}'' \<and> r = r1) \<or> scan_object n [] (d # r1) = Some (v, r)"
        by (auto simp: scan_once.simps split: list.splits if_splits)
      from x skip_ws_Cons_length [OF d] ib [of "[]" "d # r1" v r] show ?thesis
        by (auto simp: Cons)
    next
      case arr
      with a Cons obtain d r1 where d: "skip_ws r0 = d # r1"
        and x: "(d = CHR '']'' \<and> r = r1) \<or> scan_array n [] (d # r1) = Some (v, r)"
        by (auto simp: scan_once.simps split: list.splits if_splits)
      from x skip_ws_Cons_length [OF d] ia [of "[]" "d # r1" v r] show ?thesis
        by (auto simp: Cons)
    next
      case lit
      with a Cons have
        "(take 4 cs = ''null'' \<and> r = drop 4 cs) \<or> (take 4 cs = ''true'' \<and> r = drop 4 cs)
         \<or> (take 5 cs = ''false'' \<and> r = drop 5 cs) \<or> scan_number cs = Some (v, r)
         \<or> (take 3 cs = ''NaN'' \<and> r = drop 3 cs) \<or> (take 8 cs = ''Infinity'' \<and> r = drop 8 cs)
         \<or> (take 9 cs = ''-Infinity'' \<and> r = drop 9 cs)"
        by (auto simp: scan_once.simps split: if_splits option.splits)
      then show ?thesis
        using scan_number_consumes [of cs v r] Cons
        by (elim disjE conjE) simp_all
    qed
  qed
  have arr: "length r < length cs" if a: "scan_array (Suc n) acc cs = Some (v, r)" for acc cs v r
  proof -
    from a obtain v1 r1 d r2 where 1: "scan_once n cs = Some (v1, r1)" and 2: "skip_ws r1 = d # r2"
      and x: "(d = CHR '']'' \<and> r = r2) \<or> scan_array n (acc @ [v1]) (skip_ws r2) = Some (v, r)"
      by (auto simp: scan_array.simps split: option.splits list.splits if_splits)
    from x io [OF 1] skip_ws_Cons_length [OF 2] skip_ws_length [of r2]
      ia [of "acc @ [v1]" "skip_ws r2" v r]
    show ?thesis by auto
  qed
  have obj: "length r < length cs" if a: "scan_object (Suc n) acc cs = Some (v, r)" for acc cs v r
  proof -
    from a obtain q r0 k r1 c r2 v1 r3 d r4 where cs: "cs = q # r0"
      and 1: "scan_string r0 = Some (k, r1)" and 2: "skip_ws r1 = c # r2"
      and 3: "scan_once n (skip_ws r2) = Some (v1, r3)" and 4: "skip_ws r3 = d # r4"
      and x: "(d = CHR ''}'' \<and> r = r4)
              \<or> scan_object n (dict_set acc k v1) (skip_ws r4) = Some (v, r)"
      by (auto simp: scan_object.simps split: option.splits list.splits if_splits)
    from x scan_string_consumes [OF 1] skip_ws_Cons_length [OF 2] skip_ws_length [of r2]
      io [OF 3] skip_ws_Cons_length [OF 4] skip_ws_length [of r4]
      ib [of "dict_set acc k v1" "skip_ws r4" v r]
    show ?thesis by (auto simp: cs)
  qed
  from once arr obj show ?case by blast
qed

lemma scan_fuel:
  "(\<forall>m cs. 2 * length cs < n \<longrightarrow> 2 * length cs < m \<longrightarrow> scan_once n cs = scan_once m cs)
   \<and> (\<forall>m acc cs. 2 * length cs + 1 < n \<longrightarrow> 2 * length cs + 1 < m \<longrightarrow>
          scan_array n acc cs = scan_array m acc cs)
   \<and> (\<forall>m acc cs. 2 * length cs + 1 < n \<longrightarrow> 2 * length cs + 1 < m \<longrightarrow>
          scan_object n acc cs = scan_object m acc cs)"
proof (induction n)
  case 0
  show ?case by simp
next
  case (Suc n)
  then have io: "\<And>m cs. 2 * length cs < n \<Longrightarrow> 2 * length cs < m \<Longrightarrow> scan_once n cs = scan_once m cs"
    and ia: "\<And>m acc cs. 2 * length cs + 1 < n \<Longrightarrow> 2 * length cs + 1 < m \<Longrightarrow>
          scan_array n acc cs = scan_array m acc cs"
    and ib: "\<And>m acc cs. 2 * length cs + 1 < n \<Longrightarrow> 2 * length cs + 1 < m \<Longrightarrow>
          scan_object n acc cs = scan_object m acc cs"
    by blast+
  have once: "scan_once (Suc n) cs = scan_once m cs"
    if b: "2 * length cs < Suc n" "2 * length cs < m" for m cs
  proof -
    from b(2) obtain m' where m: "m = Suc m'" by (cases m) auto
    have so: "scan_object n [] (d # r1) = scan_object m' [] (d # r1)"
      if "cs = c # r0" "skip_ws r0 = d # r1" for c r0 d r1
      using that b skip_ws_Cons_length [OF that(2)] by (intro ib) (simp_all add: m)
    have sa: "scan_array n [] (d # r1) = scan_array m' [] (d # r1)"
      if "cs = c # r0" "skip_ws r0 = d # r1" for c r0 d r1
      using that b skip_ws_Cons_length [OF that(2)] by (intro ia) (simp_all add: m)
    show ?thesis
      unfolding m scan_once.simps
      by (auto split: list.splits intro: so sa)
  qed
  have arr: "scan_array (Suc n) acc cs = scan_array m acc cs"
    if b: "2 * length cs + 1 < Suc n" "2 * length cs + 1 < m" for m acc cs
  proof -
    from b(2) obtain m' where m: "m = Suc m'" by (cases m) auto
    have 1: "scan_once n cs = scan_once m' cs"
      using b by (intro io) (simp_all add: m)
    have 2: "scan_array n acc' (skip_ws r2) = scan_array m' acc' (skip_ws r2)"
      if "scan_once m' cs = Some (v, r1)" "skip_ws r1 = d # r2" for v r1 d r2 acc'
    proof -
      from scan_consumes that(1) have "length r1 < length cs" by blast
      with skip_ws_Cons_length [OF that(2)] skip_ws_length [of r2] b show ?thesis
        by (intro ia) (simp_all add: m)
    qed
    show ?thesis
      unfolding m scan_array.simps 1
      by (auto split: option.splits list.splits intro: 2)
  qed
  have obj: "scan_object (Suc n) acc cs = scan_object m acc cs"
    if b: "2 * length cs + 1 < Suc n" "2 * length cs + 1 < m" for m acc cs
  proof -
    from b(2) obtain m' where m: "m = Suc m'" by (cases m) auto
    have 1: "scan_once n (skip_ws r2) = scan_once m' (skip_ws r2)"
      if "cs = q # r0" "scan_string r0 = Some (k, r1)" "skip_ws r1 = c # r2" for q r0 k r1 c r2
      using that b scan_string_consumes [OF that(2)] skip_ws_Cons_length [OF that(3)]
        skip_ws_length [of r2]
      by (intro io) (simp_all add: m)
    have 2: "scan_object n acc' (skip_ws r4) = scan_object m' acc' (skip_ws r4)"
      if "cs = q # r0" "scan_string r0 = Some (k, r1)" "skip_ws r1 = c # r2"
        "scan_once m' (skip_ws r2) = Some (v, r3)" "skip_ws r3 = d # r4"
      for q r0 k r1 c r2 v r3 d r4 acc'
    proof -
      from scan_consumes that(4) have "length r3 < length (skip_ws r2)" by blast
      with that b scan_string_consumes [OF that(2)] skip_ws_Cons_length [OF that(3)]
        skip_ws_length [of r2] skip_ws_Cons_length [OF that(5)] skip_ws_length [of r4]
      show ?thesis
        by (intro ib) (simp_all add: m)
    qed
    show ?thesis
    proof (cases cs)
      case Nil
      then show ?thesis by (simp add: m scan_object.simps)
    next
      case (Cons q r0)
      show ?thesis
      proof (cases "scan_string r0")
        case None
        then show ?thesis by (simp add: m scan_object.simps Cons)
      next
        case (Some kr)
        obtain k r1 where kr: "kr = (k, r1)" by (cases kr)
        show ?thesis
        proof (cases "skip_ws r1")
          case Nil
          then show ?thesis by (simp add: m scan_object.simps Cons Some kr)
        next
          case c: (Cons c r2)
          note 3 = 1 [OF Cons Some [unfolded kr] c]
          show ?thesis
            unfolding m scan_object.simps Cons
            using 2 [OF Cons Some [unfolded kr] c]
            by (auto simp: Some kr c 3 split: option.splits list.splits)
        qed
      qed
    qed
  qed
  from once arr obj show ?case by blast
qed

lemma json_loads_fuel:
  assumes "2 * length s < n"
  shows "json_loads s =
     (case scan_once n (skip_ws s) of
        None \<Rightarrow> Inl JSONDecodeError
      | Some (v, r) \<Rightarrow> if skip_ws r = [] then Inr v else Inl JSONDecodeError)"
proof -
  have "2 * length (skip_ws s) < n" "2 * length (skip_ws s) < Suc (2 * length s)"
    using assms skip_ws_length [of s] by simp_all
  with scan_fuel [of n] have "scan_once n (skip_ws s) = scan_once (Suc (2 * length s)) (skip_ws s)"
    by blast
  then show ?thesis by (simp add: json_loads_def)
qed

section \<open>Properties of the cache\<close>

lemma get_db_path_dirs [simp]: "get_db_path (w\<lparr>dirs := d\<rparr>) = get_db_path w"
  by (simp add: get_db_path_def)

lemma get_connection_cases:
  "get_connection flt w =
     (if dirname (get_db_path w) \<noteq> [] \<and> makedirs_fails flt then (Inl OSError, w)
      else if connect_fails flt
        then (Inl SqliteError,
              if dirname (get_db_path w) \<noteq> [] then w\<lparr>dirs := insert (dirname (get_db_path w)) (dirs w)\<rparr> else w)
      else if create_fails flt
        then (Inl SqliteError,
              (if dirname (get_db_path w) \<noteq> [] then w\<lparr>dirs := insert (dirname (get_db_path w)) (dirs w)\<rparr> else w)
                \<lparr>open_conns := Suc (open_conns w)\<rparr>)
      else (Inr (get_db_path w),
              (if dirname (get_db_path w) \<noteq> [] then w\<lparr>dirs := insert (dirname (get_db_path w)) (dirs w)\<rparr> else w)
                \<lparr>open_conns := Suc (open_conns w),
                 tables := (tables w)(get_db_path w \<mapsto> rows_of w (get_db_path w))\<rparr>))"
  by (auto simp: get_connection_def Let_def rows_of_def map_upd_triv split: option.splits)

lemma get_try_cases:
  "get_try flt w k =
     (if read_fails flt w
      then (if connection_fails flt w then None else Some (get_db_path w),
            snd (get_connection flt w),
            Inl (if dirname (get_db_path w) \<noteq> [] \<and> makedirs_fails flt then OSError else SqliteError))
      else (Some (get_db_path w), snd (get_connection flt w),
            (case select_row k (rows_of w (get_db_path w)) of
               None \<Rightarrow> Inr PNone
             | Some r \<Rightarrow> json_loads (row_json r))))"
  by (auto simp: get_try_def get_connection_cases read_fails_def connection_fails_def rows_of_def
      split: option.splits)

text \<open>
  Claim C2. Whatever the store does (the directory cannot be made, the file cannot be
  opened, the schema statement fails, the query or the fetch fails, the stored payload
  does not decode), \<open>get_cached_review_for_changes\<close> returns and never raises. It
  returns \<open>None\<close> in every one of these cases and when the key has no row; when the
  store works and the row's payload decodes, it returns the decoded value.
\<close>

theorem get_never_raises:
  "(\<forall>e. fst (get_cached_review_for_changes flt w provider model changes) \<noteq> Inl e)
   \<and> fst (get_cached_review_for_changes flt w provider model changes) =
       (if read_fails flt w then Inr PNone
        else
          (case select_row (provider, model, build_diff_hash changes) (rows_of w (get_db_path w)) of
             None \<Rightarrow> Inr PNone
           | Some r \<Rightarrow>
               (case json_loads (row_json r) of Inl e \<Rightarrow> Inr PNone | Inr v \<Rightarrow> Inr v)))"
  by (auto simp: get_cached_review_for_changes_def Let_def get_try_cases
      split: option.splits sum.splits prod.splits)

lemma get_connection_rows:
  "rows_of (snd (get_connection flt w)) path = rows_of w path"
  by (auto simp: get_connection_cases rows_of_def split: option.splits)

lemma get_connection_path [simp]:
  "get_db_path (snd (get_connection flt w)) = get_db_path w"
  by (simp add: get_connection_cases get_db_path_def)

lemma get_connection_open:
  "open_conns (snd (get_connection flt w)) =
     (if (dirname (get_db_path w) \<noteq> [] \<and> makedirs_fails flt) \<or> connect_fails flt
      then open_conns w else Suc (open_conns w))"
  by (simp add: get_connection_cases)

lemma put_try_cases:
  "put_try flt w k result =
     (if write_fails flt w result
      then (if connection_fails flt w then None else Some (get_db_path w),
            snd (get_connection flt w),
            Inl (if dirname (get_db_path w) \<noteq> [] \<and> makedirs_fails flt then OSError
                 else if connect_fails flt \<or> create_fails flt then SqliteError
                 else if encode_val result = None then TypeError else SqliteError))
      else (Some (get_db_path w),
            (snd (get_connection flt w))
              \<lparr>tables := (tables (snd (get_connection flt w)))
                 (get_db_path w \<mapsto> upsert k (the (encode_val result)) (rows_of w (get_db_path w)))\<rparr>,
            Inr ()))"
  by (auto simp: put_try_def get_connection_cases write_fails_def connection_fails_def rows_of_def
      json_dumps_def split: option.splits)

lemma filter_upsert:
  "filter (\<lambda>r. row_key r \<noteq> k) (upsert k payload rows) = filter (\<lambda>r. row_key r \<noteq> k) rows"
proof -
  have "filter (\<lambda>r. row_key r \<noteq> k)
          (map (\<lambda>r. if row_key r = k then (fst k, fst (snd k), snd (snd k), payload) else r) rows)
        = filter (\<lambda>r. row_key r \<noteq> k) rows"
    by (induction rows) (auto simp: row_key_def)
  then show ?thesis
    by (simp add: upsert_def row_key_def)
qed

lemma rows_of_simps [simp]:
  "rows_of (w\<lparr>log := l\<rparr>) = rows_of w"
  "rows_of (w\<lparr>open_conns := n\<rparr>) = rows_of w"
  "rows_of (w\<lparr>dirs := d\<rparr>) = rows_of w"
  by (simp_all add: rows_of_def fun_eq_iff)

lemma rows_of_finally [simp]: "rows_of (finally_close conn w) = rows_of w"
  by (simp add: finally_close_def conn_close_def split: option.splits)

lemma rows_of_logger [simp]: "rows_of (logger_exception msg w) = rows_of w"
  by (simp add: logger_exception_def)

lemma rows_of_tables_upd:
  "rows_of (w\<lparr>tables := (tables w)(p \<mapsto> rs)\<rparr>) path = (if path = p then rs else rows_of w path)"
  by (simp add: rows_of_def)

lemma put_rows:
  "rows_of (snd (put_cached_review_for_changes flt w provider model changes result)) path =
     (if write_fails flt w result \<or> path \<noteq> get_db_path w then rows_of w path
      else upsert (provider, model, build_diff_hash changes) (the (encode_val result)) (rows_of w path))"
  by (simp add: put_cached_review_for_changes_def Let_def put_try_cases get_connection_rows
      rows_of_tables_upd)

lemma get_rows:
  "rows_of (snd (get_cached_review_for_changes flt w provider model changes)) path = rows_of w path"
  by (simp add: get_cached_review_for_changes_def Let_def get_try_cases get_connection_rows
      split: sum.splits option.splits)

text \<open>
  Claim C5. \<open>put_cached_review_for_changes\<close> never raises and its value is always
  \<open>None\<close>, which tells success from failure in no way. When anything fails (the
  connection, the encoding of the result, the insert or the commit) every table holds
  the rows it held before; otherwise the table of the database in use holds the upsert
  of the key.
\<close>

theorem put_never_raises:
  "fst (put_cached_review_for_changes flt w provider model changes result) = Inr ()
   \<and> (\<forall>path.
         rows_of (snd (put_cached_review_for_changes flt w provider model changes result)) path =
           (if write_fails flt w result \<or> path \<noteq> get_db_path w then rows_of w path
            else upsert (provider, model, build_diff_hash changes) (the (encode_val result))
                   (rows_of w path)))"
  by (simp add: put_rows) (simp add: put_cached_review_for_changes_def Let_def split: prod.splits sum.splits)

text \<open>
  Claim C10. In every table, the rows whose key is not
  \<open>(provider, model, build_diff_hash changes)\<close> are the same, in the same order, before
  and after \<open>put_cached_review_for_changes\<close>, whatever the store does.
\<close>

theorem put_frame:
  "filter (\<lambda>r. row_key r \<noteq> (provider, model, build_diff_hash changes))
     (rows_of (snd (put_cached_review_for_changes flt w provider model changes result)) path)
   = filter (\<lambda>r. row_key r \<noteq> (provider, model, build_diff_hash changes)) (rows_of w path)"
  by (simp add: put_rows filter_upsert)

lemma open_conns_simps [simp]:
  "open_conns (logger_exception msg w) = open_conns w"
  "open_conns (finally_close (Some c) w) = open_conns w - 1"
  "open_conns (finally_close None w) = open_conns w"
  by (simp_all add: logger_exception_def finally_close_def conn_close_def)

text \<open>
  Claim C8. The number of open connections after either function: one more than before
  exactly when \<open>sqlite3.connect\<close> succeeded and the schema statement inside
  \<open>_get_connection\<close> raised, the same as before on every other path. On that path the
  local variable \<open>conn\<close> of the caller is unbound, and the \<open>finally\<close> clause closes
  nothing.
\<close>

theorem connection_left_open:
  "open_conns (snd (get_cached_review_for_changes flt w provider model changes)) =
     (if leaks_connection flt w then Suc (open_conns w) else open_conns w)
   \<and> open_conns (snd (put_cached_review_for_changes flt w provider model changes result)) =
     (if leaks_connection flt w then Suc (open_conns w) else open_conns w)"
  by (auto simp: get_cached_review_for_changes_def put_cached_review_for_changes_def Let_def
      get_try_cases put_try_cases get_connection_open leaks_connection_def read_fails_def
      write_fails_def connection_fails_def split: sum.splits)

lemma get_outcome:
  "fst (get_cached_review_for_changes flt w provider model changes) =
       (if read_fails flt w then Inr PNone
        else
          (case select_row (provider, model, build_diff_hash changes) (rows_of w (get_db_path w)) of
             None \<Rightarrow> Inr PNone
           | Some r \<Rightarrow>
               (case json_loads (row_json r) of Inl e \<Rightarrow> Inr PNone | Inr v \<Rightarrow> Inr v)))"
  by (auto simp: get_cached_review_for_changes_def Let_def get_try_cases
      split: option.splits sum.splits prod.splits)

lemma get_db_path_environ: "environ w' = environ w \<Longrightarrow> get_db_path w' = get_db_path w"
  by (simp add: get_db_path_def)

lemma environ_get_connection [simp]: "environ (snd (get_connection flt w)) = environ w"
  by (simp add: get_connection_cases)

lemma environ_put [simp]:
  "environ (snd (put_cached_review_for_changes flt w provider model changes result)) = environ w"
  by (simp add: put_cached_review_for_changes_def Let_def put_try_cases finally_close_def
      conn_close_def logger_exception_def split: option.splits)

lemma environ_get [simp]:
  "environ (snd (get_cached_review_for_changes flt w provider model changes)) = environ w"
  by (simp add: get_cached_review_for_changes_def Let_def get_try_cases finally_close_def
      conn_close_def logger_exception_def split: option.splits sum.splits)

lemma path_put [simp]:
  "get_db_path (snd (put_cached_review_for_changes flt w provider model changes result)) = get_db_path w"
  by (rule get_db_path_environ) simp

lemma path_get [simp]:
  "get_db_path (snd (get_cached_review_for_changes flt w provider model changes)) = get_db_path w"
  by (rule get_db_path_environ) simp

lemma no_faults_read: "no_faults flt \<Longrightarrow> \<not> read_fails flt w"
  by (simp add: no_faults_def read_fails_def connection_fails_def)

lemma no_faults_write: "no_faults flt \<Longrightarrow> write_fails flt w result = (encode_val result = None)"
  by (simp add: no_faults_def write_fails_def connection_fails_def)

lemma find_append_none: "find P xs = None \<Longrightarrow> find P (xs @ ys) = find P ys"
  by (induction xs) (auto split: if_splits)

lemma select_upsert:
  "select_row k (upsert k payload rows) = Some (fst k, fst (snd k), snd (snd k), payload)"
proof -
  let ?new = "(fst k, fst (snd k), snd (snd k), payload)"
  have nk: "row_key ?new = k" by (simp add: row_key_def)
  show ?thesis
  proof (cases "\<exists>r \<in> set rows. row_key r = k")
    case True
    have "(\<exists>r \<in> set xs. row_key r = k) \<Longrightarrow>
        find (\<lambda>r. row_key r = k) (map (\<lambda>r. if row_key r = k then ?new else r) xs) = Some ?new" for xs
      by (induction xs) (auto simp: nk)
    from this [OF True] True show ?thesis by (simp add: select_row_def upsert_def)
  next
    case False
    then have "find (\<lambda>r. row_key r = k) rows = None"
      by (simp add: find_None_iff)
    from find_append_none [OF this] False show ?thesis
      by (simp add: select_row_def upsert_def nk)
  qed
qed

lemma keys_upsert:
  "map row_key (upsert k payload rows) =
     (if \<exists>r \<in> set rows. row_key r = k then map row_key rows else map row_key rows @ [k])"
proof -
  have "map row_key (map (\<lambda>r. if row_key r = k then (fst k, fst (snd k), snd (snd k), payload) else r) rows)
      = map row_key rows"
    by (induction rows) (auto simp: row_key_def)
  then show ?thesis
    by (simp add: upsert_def row_key_def)
qed

lemma distinct_upsert:
  "distinct (map row_key rows) \<Longrightarrow> distinct (map row_key (upsert k payload rows))"
  by (auto simp: keys_upsert)

lemma pk_ok_put:
  "pk_ok w \<Longrightarrow> pk_ok (snd (put_cached_review_for_changes flt w provider model changes result))"
  by (simp add: pk_ok_def put_rows distinct_upsert)

lemma pk_ok_get:
  "pk_ok w \<Longrightarrow> pk_ok (snd (get_cached_review_for_changes flt w provider model changes))"
  by (simp add: pk_ok_def get_rows)

lemma reachable_pk_ok: "reachable w \<Longrightarrow> pk_ok w"
proof (induction rule: reachable.induct)
  case (fresh w)
  then show ?case by (simp add: pk_ok_def rows_of_def)
next
  case (after_put w flt provider model changes result)
  from after_put.IH show ?case by (rule pk_ok_put)
next
  case (after_get w flt provider model changes)
  from after_get.IH show ?case by (rule pk_ok_get)
qed

lemma one_row_upsert:
  assumes "distinct (map row_key rows)"
  shows "length (filter (\<lambda>r. row_key r = k) (upsert k payload rows)) = 1"
proof -
  have d: "distinct (map row_key (upsert k payload rows))"
    using assms by (rule distinct_upsert)
  have m: "k \<in> set (map row_key (upsert k payload rows))"
    by (auto simp: keys_upsert)
  have "length (filter (\<lambda>r. row_key r = k) xs) = 1"
    if "distinct (map row_key xs)" "k \<in> set (map row_key xs)" for xs
    using that by (induction xs) (auto simp: filter_empty_conv image_iff)
  from this [OF d m] show ?thesis .
qed

lemma put_get:
  assumes "no_faults f1" and "no_faults f2" and "json_safe result"
  shows "fst (get_cached_review_for_changes f2
              (snd (put_cached_review_for_changes f1 w provider model changes result))
              provider model changes) = Inr result"
proof -
  from json_roundtrip [OF assms(3)] have e: "encode_val result \<noteq> None"
    and l: "json_loads (the (encode_val result)) = Inr result" by simp_all
  from e assms(1) have nw: "\<not> write_fails f1 w result" by (simp add: no_faults_write)
  show ?thesis
    by (simp add: get_outcome no_faults_read [OF assms(2)] put_rows nw select_upsert row_json_def l)
qed

lemma float_token_example: "float_token ''1.5''"
  by code_simp

lemma loads_example_list: "json_loads ''[1]'' = Inr (PList [PInt 1])"
  by code_simp

lemma loads_example_bad: "json_loads ''{bad'' = Inl JSONDecodeError"
  by code_simp

lemma review_of_ok: "is_review_result (review_of text)"
  by (simp add: is_review_result_def review_of_def field_ok_def float_token_example)

lemma no_fault_ok: "no_faults no_fault"
  by (simp add: no_faults_def no_fault_def)

lemma path_empty_world [simp]: "get_db_path (empty_world\<lparr>tables := t\<rparr>) = DEFAULT_DB_PATH"
  by (simp add: get_db_path_def empty_world_def)

text \<open>
  Claim C3. When nothing fails in the store, \<open>put_cached_review_for_changes\<close> of a
  review result followed by \<open>get_cached_review_for_changes\<close> of the same provider,
  model and changes returns that review result: what \<open>json.dumps\<close> wrote, \<open>json.loads\<close>
  reads back as the same value. This holds from every state of the store, whether or not
  the key had a row before.
\<close>

theorem put_then_get_roundtrip:
  assumes "no_faults f1" and "no_faults f2" and "is_review_result result"
  shows "fst (get_cached_review_for_changes f2
              (snd (put_cached_review_for_changes f1 w provider model changes result))
              provider model changes) = Inr result"
  using assms by (intro put_get review_result_safe)

theorem put_then_get_roundtrip_witness:
  "fst (get_cached_review_for_changes no_fault
         (snd (put_cached_review_for_changes no_fault empty_world ''openai'' ''gpt-4''
                 [change_of ''a.py'' ''+x''] (review_of ''LGTM'')))
         ''openai'' ''gpt-4'' [change_of ''a.py'' ''+x'']) = Inr (review_of ''LGTM'')"
  by (rule put_then_get_roundtrip) (rule no_fault_ok no_fault_ok review_of_ok)+

text \<open>
  Claim C6. In every state of the store that the module can bring about, no table holds
  two rows of one key, and both functions keep it so whatever fails in them. After two
  writes of one key, the second without failure, a read without failure returns the
  second result, and the table holds exactly one row of the key: the second write
  replaced the payload of the first.
\<close>

theorem one_entry_per_key:
  assumes "reachable w"
  shows "pk_ok w
    \<and> pk_ok (snd (put_cached_review_for_changes flt w provider model changes r))
    \<and> pk_ok (snd (get_cached_review_for_changes flt w provider model changes))
    \<and> (no_faults f2 \<and> no_faults f3 \<and> is_review_result r2 \<longrightarrow>
         fst (get_cached_review_for_changes f3
               (snd (put_cached_review_for_changes f2
                      (snd (put_cached_review_for_changes f1 w provider model changes r1))
                      provider model changes r2))
               provider model changes) = Inr r2
         \<and> length (filter (\<lambda>row. row_key row = (provider, model, build_diff_hash changes))
              (rows_of (snd (put_cached_review_for_changes f2
                      (snd (put_cached_review_for_changes f1 w provider model changes r1))
                      provider model changes r2)) (get_db_path w))) = 1)"
proof -
  from assms have pk: "pk_ok w" by (rule reachable_pk_ok)
  let ?w1 = "snd (put_cached_review_for_changes f1 w provider model changes r1)"
  have pk1: "pk_ok ?w1" using pk by (rule pk_ok_put)
  have "length (filter (\<lambda>row. row_key row = (provider, model, build_diff_hash changes))
              (rows_of (snd (put_cached_review_for_changes f2 ?w1 provider model changes r2))
                 (get_db_path w))) = 1"
    if "no_faults f2" "is_review_result r2"
  proof -
    from json_roundtrip [OF review_result_safe [OF that(2)]] that(1)
    have "\<not> write_fails f2 ?w1 r2" by (simp add: no_faults_write)
    moreover have "distinct (map row_key (rows_of ?w1 (get_db_path w)))"
      using pk1 by (simp add: pk_ok_def)
    ultimately show ?thesis
      by (simp add: put_rows [of f2 ?w1] one_row_upsert)
  qed
  with pk pk_ok_put [OF pk] pk_ok_get [OF pk] show ?thesis
    by (auto intro: put_get review_result_safe)
qed

theorem one_entry_per_key_witness:
  "reachable empty_world \<and> pk_ok empty_world
   \<and> fst (get_cached_review_for_changes no_fault
           (snd (put_cached_review_for_changes no_fault
                  (snd (put_cached_review_for_changes no_fault empty_world ''openai'' ''gpt-4''
                         [change_of ''a.py'' ''+x''] (review_of ''first'')))
                  ''openai'' ''gpt-4'' [change_of ''a.py'' ''+x''] (review_of ''second'')))
           ''openai'' ''gpt-4'' [change_of ''a.py'' ''+x'']) = Inr (review_of ''second'')
   \<and> length (filter (\<lambda>row. row_key row = (''openai'', ''gpt-4'', build_diff_hash [change_of ''a.py'' ''+x'']))
        (rows_of (snd (put_cached_review_for_changes no_fault
                  (snd (put_cached_review_for_changes no_fault empty_world ''openai'' ''gpt-4''
                         [change_of ''a.py'' ''+x''] (review_of ''first'')))
                  ''openai'' ''gpt-4'' [change_of ''a.py'' ''+x''] (review_of ''second'')))
           (get_db_path empty_world))) = 1"
proof -
  have r: "reachable empty_world"
    by (rule reachable.fresh) (simp add: empty_world_def)
  from one_entry_per_key [OF r, of no_fault "''openai''" "''gpt-4''" "[change_of ''a.py'' ''+x'']"
      "review_of ''first''" no_fault no_fault "review_of ''second''" no_fault "review_of ''first''"]
    r no_fault_ok review_of_ok
  show ?thesis by blast
qed

text \<open>
  Claim C7, for payloads that are not JSON. When the row of the key holds a payload that
  \<open>json.loads\<close> rejects, \<open>get_cached_review_for_changes\<close> returns \<open>None\<close>. A payload
  that \<open>json.loads\<close> accepts is returned as decoded when nothing fails in the store;
  the function does not look at the shape of the decoded value.
\<close>

theorem get_stored_payload:
  assumes "select_row (provider, model, build_diff_hash changes) (rows_of w (get_db_path w)) = Some r"
  shows "fst (get_cached_review_for_changes flt w provider model changes) =
     (case json_loads (row_json r) of
        Inl e \<Rightarrow> Inr PNone
      | Inr v \<Rightarrow> if read_fails flt w then Inr PNone else Inr v)"
  using assms by (simp add: get_outcome split: sum.splits)

lemma select_stored:
  "select_row k (rows_of (stored_world k payload) (get_db_path (stored_world k payload)))
     = Some (fst k, fst (snd k), snd (snd k), payload)"
  by (simp add: stored_world_def rows_of_def select_row_def row_key_def)

theorem get_stored_payload_witness:
  "fst (get_cached_review_for_changes no_fault
         (stored_world (''openai'', ''gpt-4'', build_diff_hash [change_of ''a.py'' ''+x'']) ''{bad'')
         ''openai'' ''gpt-4'' [change_of ''a.py'' ''+x'']) = Inr PNone"
  using get_stored_payload [OF select_stored [of "(''openai'', ''gpt-4'', build_diff_hash [change_of ''a.py'' ''+x''])" "''{bad''", simplified], of no_fault]
  by (simp add: row_json_def loads_example_bad)

text \<open>
  A payload that is JSON but not a review result is returned to the caller: a stored
  \<open>[1]\<close> comes back as a list.
\<close>

theorem malformed_payload_returned:
  "fst (get_cached_review_for_changes no_fault
         (stored_world (''openai'', ''gpt-4'', build_diff_hash [change_of ''a.py'' ''+x'']) ''[1]'')
         ''openai'' ''gpt-4'' [change_of ''a.py'' ''+x'']) = Inr (PList [PInt 1])
   \<and> \<not> is_review_result (PList [PInt 1])"
  using select_stored [of "(''openai'', ''gpt-4'', build_diff_hash [change_of ''a.py'' ''+x''])" "''[1]''"]
    no_faults_read [OF no_fault_ok]
  by (simp add: get_outcome row_json_def loads_example_list is_review_result_def)

end
